theory Spec2Isabelle
  imports Main
begin

section \<open>Data model of the card generator\<close>

text \<open>
  Python strings are modelled as \<open>string\<close>, one \<open>char\<close> per code point, so
  \<open>length\<close> is Python's \<open>len\<close>. Python's unbounded integers are \<open>int\<close>; list
  positions produced by \<open>enumerate\<close> and \<open>range\<close> are \<open>nat\<close>.
\<close>

datatype error = ZeroDivisionError | KeyError string | ValueError | Exit int

record date =
  year :: int
  month :: int
  day :: int

text \<open>The named tuple \<open>Track\<close> of \<open>make_qr_cards.py\<close>; its field \<open>set\<close> is \<open>set_label\<close> here.\<close>

record Track =
  release_date :: date
  title :: string
  artist :: string
  album :: string
  album_track :: int
  track_url :: string
  album_url :: string
  artist_url :: string
  set_label :: string
  set_index :: int

text \<open>The named tuple \<open>Table\<close>: the cards of one sheet, with the grid's width and height.\<close>

record Table =
  cells :: "Track list"
  width :: int
  height :: int

definition Table_new :: Table where
  "Table_new = \<lparr>cells = [], width = 3, height = 4\<rparr>"

definition append_track :: "Table \<Rightarrow> Track \<Rightarrow> Table" where
  "append_track t track = t\<lparr>cells := cells t @ [track]\<rparr>"

definition is_empty :: "Table \<Rightarrow> bool" where
  "is_empty t = (length (cells t) = 0)"

definition is_full :: "Table \<Rightarrow> bool" where
  "is_full t = (int (length (cells t)) \<ge> width t * height t)"

section \<open>Page renderer: grid cells of the two sides\<close>

text \<open>
  \<open>Table.render_svg\<close> walks \<open>enumerate(self.cells)\<close> and computes for every card the
  grid column \<open>ix\<close> and row \<open>iy\<close>, from which the millimetre coordinates follow. The
  model keeps the column and the row. \<open>%\<close> and \<open>//\<close> raise on a zero width.
\<close>

datatype mode = Qr | Title

definition grid_cell :: "mode \<Rightarrow> Table \<Rightarrow> nat \<Rightarrow> error + (int \<times> int)" where
  "grid_cell m t i =
     (if width t = 0 then Inl ZeroDivisionError
      else (case m of
              Qr \<Rightarrow> Inr (width t - 1 - (int i mod width t), int i div width t)
            | Title \<Rightarrow> Inr (int i mod width t, int i div width t)))"

fun place_cells :: "mode \<Rightarrow> Table \<Rightarrow> (nat \<times> Track) list \<Rightarrow> error + (int \<times> int \<times> Track) list" where
  "place_cells m t [] = Inr []"
| "place_cells m t ((i, track) # rest) =
     (case grid_cell m t i of
        Inl e \<Rightarrow> Inl e
      | Inr (ix, iy) \<Rightarrow>
          (case place_cells m t rest of
             Inl e \<Rightarrow> Inl e
           | Inr ps \<Rightarrow> Inr ((ix, iy, track) # ps)))"

definition render_cells :: "mode \<Rightarrow> Table \<Rightarrow> error + (int \<times> int \<times> Track) list" where
  "render_cells m t = place_cells m t (enumerate 0 (cells t))"

section \<open>Paginator\<close>

text \<open>
  The loop of \<open>main\<close> that fills tables: every track is appended to the current table,
  a full table is pushed and replaced by a new one, and a last table that is not empty
  is pushed after the loop. The year and decade counters of the same loop are printed
  statistics and are left out.
\<close>

fun paginate_loop :: "Track list \<Rightarrow> Table \<Rightarrow> Table list \<Rightarrow> Table \<times> Table list" where
  "paginate_loop [] table tables = (table, tables)"
| "paginate_loop (track # tracks) table tables =
     (let table' = append_track table track
      in if is_full table' then paginate_loop tracks Table_new (tables @ [table'])
         else paginate_loop tracks table' tables)"

definition paginate :: "Track list \<Rightarrow> Table list" where
  "paginate tracks =
     (case paginate_loop tracks Table_new [] of
        (table, tables) \<Rightarrow> if \<not> is_empty table then tables @ [table] else tables)"

section \<open>Text fitter\<close>

text \<open>
  \<open>str.strip()\<close> removes the characters for which \<open>str.isspace\<close> holds from both ends;
  below code point 256 these are the twelve characters of \<open>whitespace\<close>.
\<close>

definition whitespace :: "char list" where
  "whitespace = [CHR 0x09, CHR 0x0A, CHR 0x0B, CHR 0x0C, CHR 0x0D, CHR 0x1C, CHR 0x1D,
                 CHR 0x1E, CHR 0x1F, CHR 0x20, CHR 0x85, CHR 0xA0]"

definition isspace :: "char \<Rightarrow> bool" where
  "isspace c = (c \<in> set whitespace)"

definition strip :: "string \<Rightarrow> string" where
  "strip s = rev (dropWhile isspace (rev (dropWhile isspace s)))"

text \<open>
  \<open>s.split(" ")\<close> cuts at every single space, so it never returns the empty list and
  gives empty words for leading, trailing and repeated spaces. The first case of the
  \<open>case\<close> below is never taken.
\<close>

fun split_sp :: "string \<Rightarrow> string list" where
  "split_sp [] = [[]]"
| "split_sp (c # cs) =
     (if c = CHR '' '' then [] # split_sp cs
      else (case split_sp cs of [] \<Rightarrow> [[c]] | w # ws \<Rightarrow> (c # w) # ws))"

text \<open>\<open>" ".join(ws)\<close>\<close>

fun join_sp :: "string list \<Rightarrow> string" where
  "join_sp [] = []"
| "join_sp [w] = w"
| "join_sp (w # v # ws) = w @ '' '' @ join_sp (v # ws)"

text \<open>
  The loop of the three-line branch, over \<open>enumerate(words)\<close>: it returns
  \<open>first_two_lines\<close> and \<open>first_third_line_word_index\<close>, which stays \<open>None\<close> when the
  loop ends without \<open>break\<close>.
\<close>

fun third_line_loop :: "string list \<Rightarrow> string \<Rightarrow> nat \<Rightarrow> string \<times> nat option" where
  "third_line_loop [] first_two_lines i = (first_two_lines, None)"
| "third_line_loop (word # rest) first_two_lines i =
     (if length (first_two_lines @ word) \<ge> 48 then (first_two_lines, Some i)
      else third_line_loop rest (first_two_lines @ word @ '' '') (Suc i))"

text \<open>\<open>words[first_third_line_word_index:]\<close>; a slice from \<open>None\<close> is the whole list.\<close>

definition slice_from :: "nat option \<Rightarrow> string list \<Rightarrow> string list" where
  "slice_from idx words = (case idx of None \<Rightarrow> words | Some i \<Rightarrow> drop i words)"

text \<open>
  The loop of the two-line branch, over the indices of \<open>range(1, len(words) - 1)\<close>, with
  the state \<open>(top, bot, diff)\<close> (\<open>top_line\<close> and \<open>bot_line\<close> here).
\<close>

fun balance_loop :: "string list \<Rightarrow> nat list \<Rightarrow> string \<times> string \<times> int \<Rightarrow> string \<times> string \<times> int" where
  "balance_loop words [] st = st"
| "balance_loop words (i # is) (top_line, bot_line, diff) =
     (let t = join_sp (take i words); b = join_sp (drop i words);
          d = \<bar>int (length t) - int (length b)\<bar>
      in if d < diff then balance_loop words is (t, b, d)
         else balance_loop words is (top_line, bot_line, diff))"

definition two_lines :: "string list \<Rightarrow> string list" where
  "two_lines words =
     (let char_count = int (sum_list (map length words))
      in case balance_loop words [1..<length words - 1] (join_sp words, [], char_count) of
           (top_line, bot_line, diff) \<Rightarrow> [top_line, bot_line])"

function line_break_text :: "string \<Rightarrow> string list" where
  "line_break_text s =
     (if length s < 24 then [s]
      else if length s > 48 then
        line_break_text (strip (fst (third_line_loop (split_sp s) [] 0)))
          @ [join_sp (slice_from (snd (third_line_loop (split_sp s) [] 0)) (split_sp s))]
      else two_lines (split_sp s))"
  by pat_completeness auto
termination
proof (relation "measure length")
  show "wf (measure length)" by simp
next
  fix s :: string
  assume "\<not> length s < 24" and big: "48 < length s"
  have loop: "length (fst (third_line_loop ws acc i)) \<le> max (length acc) 48" for ws acc i
    by (induction ws acc i rule: third_line_loop.induct) auto
  have "length (dropWhile isspace x) \<le> length x" for x
    by (induction x) auto
  then have "length (strip x) \<le> length x" for x
    unfolding strip_def by (metis length_rev le_trans)
  then have "length (strip (fst (third_line_loop (split_sp s) [] 0)))
               \<le> length (fst (third_line_loop (split_sp s) [] 0))" .
  also have "\<dots> \<le> 48" using loop [of "split_sp s" "[]" 0] by simp
  finally show "(strip (fst (third_line_loop (split_sp s) [] 0)), s) \<in> measure length"
    using big by simp
qed

text \<open>
  The value of \<open>first_two_lines\<close> after the loop has added the words \<open>ws\<close> to an empty
  string (a proof device: the loop itself is \<open>third_line_loop\<close>).
\<close>

fun spaced :: "string list \<Rightarrow> string" where
  "spaced [] = []"
| "spaced (w # ws) = w @ '' '' @ spaced ws"

section \<open>Title and album normalizer\<close>

text \<open>
  A pattern to remove is a literal string or a compiled regular expression. A compiled
  expression is represented by the function \<open>re.sub(pattern, "", \<cdot>)\<close> that it
  induces on strings.
\<close>

datatype pattern = Literal string | Regex "string \<Rightarrow> string"

text \<open>
  \<open>s.replace(pattern, "")\<close> removes the occurrences of \<open>pattern\<close> from left to
  right, continuing after each removed occurrence; the empty pattern leaves the string
  as it is.
\<close>

function replace :: "string \<Rightarrow> string \<Rightarrow> string" where
  "replace pat s =
     (if s = [] then []
      else if pat \<noteq> [] \<and> take (length pat) s = pat
           then replace pat (drop (length pat) s)
      else hd s # replace pat (tl s))"
  by pat_completeness auto
termination
  by (relation "measure (\<lambda>(pat, s). length s)") auto

fun clean_string :: "string \<Rightarrow> pattern list \<Rightarrow> string" where
  "clean_string s [] = s"
| "clean_string s (Literal pat # patterns_to_remove) =
     clean_string (strip (replace pat s)) patterns_to_remove"
| "clean_string s (Regex sub # patterns_to_remove) =
     clean_string (strip (sub s)) patterns_to_remove"

text \<open>
  \<open>contains pat s\<close> is \<open>pat in s\<close>. A pattern matches a string when removing it
  would change the string.
\<close>

fun contains :: "string \<Rightarrow> string \<Rightarrow> bool" where
  "contains pat [] = (pat = [])"
| "contains pat (c # cs) = (take (length pat) (c # cs) = pat \<or> contains pat cs)"

fun matches :: "pattern \<Rightarrow> string \<Rightarrow> bool" where
  "matches (Literal pat) s = (pat \<noteq> [] \<and> contains pat s)"
| "matches (Regex sub) s = (sub s \<noteq> s)"

section \<open>Track database\<close>

text \<open>
  A record of the track database, a JSON object. The keys that a record may lack are
  options: \<open>set\<close>, which \<open>clean_track_data\<close> deletes from every record that
  \<open>fetch_track_metadata.py\<close> writes and which only older databases still carry, and the
  three overrides. \<open>db_release_date\<close> is the value of \<open>date.fromisoformat\<close> on the
  stored text and \<open>db_album_track\<close> the value of \<open>int\<close> on the stored field, \<open>None\<close> where
  these raise \<open>ValueError\<close>. \<open>db_sets\<close> is the object under \<open>sets\<close>, from set id to
  index, in the order of its keys.
\<close>

record TrackData =
  db_release_date :: "date option"
  db_title_clean :: string
  db_title_override :: "string option"
  db_artist :: string
  db_artist_override :: "string option"
  db_album_clean :: string
  db_album_override :: "string option"
  db_album_track :: "int option"
  db_track_url :: string
  db_album_url :: string
  db_artist_url :: string
  db_set :: "string option"
  db_sets :: "(string \<times> int) list"

text \<open>The object under \<open>tracks\<close>, from track id to record, in the order of the file.\<close>

type_synonym track_db = "(string \<times> TrackData) list"

text \<open>\<open>track.get("title_override", track["title_clean"])\<close> and its two siblings.\<close>

definition display_title :: "TrackData \<Rightarrow> string" where
  "display_title track =
     (case db_title_override track of Some t \<Rightarrow> t | None \<Rightarrow> db_title_clean track)"

definition display_artist :: "TrackData \<Rightarrow> string" where
  "display_artist track =
     (case db_artist_override track of Some a \<Rightarrow> a | None \<Rightarrow> db_artist track)"

definition display_album :: "TrackData \<Rightarrow> string" where
  "display_album track =
     (case db_album_override track of Some a \<Rightarrow> a | None \<Rightarrow> db_album_clean track)"

section \<open>Reading a line of the track list\<close>

text \<open>\<open>s.split(sep)\<close> for a separator of one character.\<close>

fun split_on :: "char \<Rightarrow> string \<Rightarrow> string list" where
  "split_on sep [] = [[]]"
| "split_on sep (c # cs) =
     (if c = sep then [] # split_on sep cs
      else (case split_on sep cs of [] \<Rightarrow> [[c]] | w # ws \<Rightarrow> (c # w) # ws))"

definition startswith :: "string \<Rightarrow> string \<Rightarrow> bool" where
  "startswith s prefix = (take (length prefix) s = prefix)"

text \<open>
  \<open>int(s)\<close> on a string: whitespace around the number is dropped, a sign may come
  first, and the decimal digits may be separated by single underscores. \<open>None\<close> stands
  for \<open>ValueError\<close>.
\<close>

definition digit :: "char \<Rightarrow> nat option" where
  "digit c = (if 48 \<le> (of_char c :: nat) \<and> (of_char c :: nat) \<le> 57
              then Some (of_char c - 48) else None)"

fun digits :: "string \<Rightarrow> nat \<Rightarrow> nat option" where
  "digits [] acc = Some acc"
| "digits (c # cs) acc =
     (if c = CHR ''_'' then (if digit (hd (cs @ ''_'')) = None then None else digits cs acc)
      else (case digit c of None \<Rightarrow> None | Some v \<Rightarrow> digits cs (10 * acc + v)))"

definition unsigned :: "string \<Rightarrow> nat option" where
  "unsigned s = (if digit (hd (s @ ''_'')) = None then None else digits s 0)"

definition int_of_str :: "string \<Rightarrow> int option" where
  "int_of_str s =
     (case strip s of
        [] \<Rightarrow> None
      | c # cs \<Rightarrow>
          if c = CHR ''-'' then map_option (\<lambda>n. - int n) (unsigned cs)
          else if c = CHR ''+'' then map_option int (unsigned cs)
          else map_option int (unsigned (c # cs)))"

section \<open>Card selection of the renderer\<close>

text \<open>The command line of \<open>make_qr_cards.py\<close>, as far as the selection reads it.\<close>

record Args =
  offset_count :: "int option"
  limit_count :: "int option"
  set_name :: "string option"
  set_alias :: "string option"
  skip_if_set :: "string option"
  fuzzy_track_dupes :: bool

text \<open>\<open>set(skip_if_set.split(",")) if skip_if_set else set()\<close>\<close>

definition skip_sets :: "Args \<Rightarrow> string set" where
  "skip_sets args =
     (case skip_if_set args of
        None \<Rightarrow> {}
      | Some s \<Rightarrow> if s = [] then {} else set (split_on (CHR '','') s))"

text \<open>
  The index \<open>exclude_track_data\<close>, a \<open>defaultdict(set)\<close> from (title, artist) to set ids.
  \<open>ior_entry\<close> is \<open>exclude_track_data[key] |= ids\<close>, which makes the entry if there is
  none.
\<close>

type_synonym fuzzy_index = "((string \<times> string) \<times> string set) list"

fun ior_entry :: "fuzzy_index \<Rightarrow> string \<times> string \<Rightarrow> string set \<Rightarrow> fuzzy_index" where
  "ior_entry [] key ids = [(key, ids)]"
| "ior_entry ((k, old) # rest) key ids =
     (if k = key then (k, old \<union> ids) # rest else (k, old) # ior_entry rest key ids)"

text \<open>
  The loop over \<open>track_metadata.values()\<close> that prepares the fuzzy matching.
  \<open>track["set"]\<close> raises \<open>KeyError\<close> on a record without that key.
\<close>

fun index_loop :: "string set \<Rightarrow> TrackData list \<Rightarrow> fuzzy_index \<Rightarrow> error + fuzzy_index" where
  "index_loop skip [] exclude_track_data = Inr exclude_track_data"
| "index_loop skip (track # rest) exclude_track_data =
     (case db_set track of
        None \<Rightarrow> Inl (KeyError ''set'')
      | Some s \<Rightarrow>
          if s \<notin> skip then index_loop skip rest exclude_track_data
          else index_loop skip rest
                 (ior_entry exclude_track_data (display_title track, display_artist track)
                    (skip \<inter> set (map fst (db_sets track)))))"

definition build_index :: "Args \<Rightarrow> track_db \<Rightarrow> error + fuzzy_index" where
  "build_index args track_metadata =
     (if fuzzy_track_dupes args \<and> skip_sets args \<noteq> {}
      then index_loop (skip_sets args) (map snd track_metadata) []
      else Inr [])"

text \<open>What the selection prints.\<close>

datatype message =
    NotFound string
  | PresentInSet string "string list"
  | PresentInSets string "string set"

text \<open>\<open>set_alias or track_set or ""\<close>\<close>

definition card_set :: "string option \<Rightarrow> string option \<Rightarrow> string" where
  "card_set alias track_set =
     (if alias \<noteq> None \<and> alias \<noteq> Some [] then the alias
      else if track_set \<noteq> None \<and> track_set \<noteq> Some [] then the track_set
      else [])"

definition make_track :: "Args \<Rightarrow> TrackData \<Rightarrow> string option \<Rightarrow> int \<Rightarrow> error + Track" where
  "make_track args existing_track_data track_set track_index =
     (case db_release_date existing_track_data of
        None \<Rightarrow> Inl ValueError
      | Some d \<Rightarrow>
          (case db_album_track existing_track_data of
             None \<Rightarrow> Inl ValueError
           | Some n \<Rightarrow>
               Inr \<lparr>release_date = d,
                    title = display_title existing_track_data,
                    artist = display_artist existing_track_data,
                    album = display_album existing_track_data,
                    album_track = n,
                    track_url = db_track_url existing_track_data,
                    album_url = db_album_url existing_track_data,
                    artist_url = db_artist_url existing_track_data,
                    set_label = card_set (set_alias args) track_set,
                    set_index = track_index\<rparr>))"

text \<open>
  The loop over \<open>enumerate(track_ids)\<close>, with the state \<open>count\<close>, \<open>processed_count\<close>,
  \<open>tracks\<close> and the messages printed so far. It returns the messages and either the
  selected tracks or the exception or exit status that ended the run.
\<close>

fun select_loop ::
  "Args \<Rightarrow> track_db \<Rightarrow> fuzzy_index \<Rightarrow> (nat \<times> string) list \<Rightarrow> int \<Rightarrow> int \<Rightarrow> Track list \<Rightarrow> message list
     \<Rightarrow> message list \<times> (error + Track list)" where
  "select_loop args track_metadata exclude_track_data [] count processed_count tracks out =
     (out, Inr tracks)"
| "select_loop args track_metadata exclude_track_data ((idx, track_id_def) # rest)
       count processed_count tracks out =
     (if length (strip track_id_def) = 0 \<or> startswith track_id_def ''#''
      then select_loop args track_metadata exclude_track_data rest count processed_count tracks out
      else
        let tokens = split_on (CHR '';'') track_id_def;
            track_id = tokens ! 0;
            track_set = (if length tokens > 1 then Some (tokens ! 1) else None)
        in case (if length tokens > 2 then int_of_str (tokens ! 2) else Some (int idx)) of
             None \<Rightarrow> (out, Inl ValueError)
           | Some track_index \<Rightarrow>
               if set_name args \<noteq> None \<and> track_set \<noteq> set_name args
               then select_loop args track_metadata exclude_track_data rest
                      count processed_count tracks out
               else
                 (case map_of track_metadata track_id of
                    None \<Rightarrow> (out @ [NotFound track_id], Inl (Exit 2))
                  | Some existing_track_data \<Rightarrow>
                      let other_sets = filter (\<lambda>set_id. set_id \<in> skip_sets args)
                                         (map fst (db_sets existing_track_data))
                      in if skip_sets args \<noteq> {} \<and> other_sets \<noteq> []
                         then select_loop args track_metadata exclude_track_data rest
                                count processed_count tracks
                                (out @ [PresentInSet track_id other_sets])
                         else
                           (case make_track args existing_track_data track_set track_index of
                              Inl e \<Rightarrow> (out, Inl e)
                            | Inr track \<Rightarrow>
                                (case map_of exclude_track_data (title track, artist track) of
                                   Some conflicting_sets \<Rightarrow>
                                     select_loop args track_metadata exclude_track_data rest
                                       count processed_count tracks
                                       (out @ [PresentInSets track_id conflicting_sets])
                                 | None \<Rightarrow>
                                     if (case offset_count args of None \<Rightarrow> 0 | Some n \<Rightarrow> n)
                                          \<ge> count + 1
                                     then select_loop args track_metadata exclude_track_data rest
                                            (count + 1) processed_count tracks out
                                     else if limit_count args \<noteq> None
                                             \<and> processed_count + 1 \<ge> the (limit_count args)
                                     then (out, Inr (tracks @ [track]))
                                     else select_loop args track_metadata exclude_track_data rest
                                            (count + 1) (processed_count + 1)
                                            (tracks @ [track]) out))))"

text \<open>
  Lines 400 to 479 of \<open>main\<close>: the index is prepared, then the lines of the track
  list, each stripped when the file is read, are walked.
\<close>

definition select_tracks :: "Args \<Rightarrow> track_db \<Rightarrow> string list \<Rightarrow> message list \<times> (error + Track list)" where
  "select_tracks args track_metadata lines =
     (case build_index args track_metadata of
        Inl e \<Rightarrow> ([], Inl e)
      | Inr exclude_track_data \<Rightarrow>
          select_loop args track_metadata exclude_track_data
            (enumerate 0 (map strip lines)) 0 0 [] [])"

section \<open>Set id of a line in the metadata fetcher\<close>

text \<open>The command line of \<open>fetch_track_metadata.py\<close>, as far as the loop header reads it.\<close>

record FetchArgs =
  set_id :: "string option"
  set_id_override :: "string option"
  db_reprocess_mode :: bool

text \<open>Lines 375 to 379: the set id that the line is processed with.\<close>

definition resolve_set_id :: "FetchArgs \<Rightarrow> string list \<Rightarrow> string option" where
  "resolve_set_id args tokens =
     (let track_set = (if length tokens > 1 then Some (tokens ! 1) else None)
      in if set_id_override args \<noteq> None then set_id_override args
         else if track_set = None then set_id args
         else track_set)"


text \<open>
  The loop over \<open>enumerate(track_ids)\<close> of the fetcher. Lines 386 to 431, which look
  the track up in the database, fetch it over the network and save the database, are
  the parameter \<open>process\<close>: from the database in memory, the track id, the set id and
  the index it gives the exception raised, or the database in memory afterwards and
  whether \<open>save_track_db\<close> at line 427 was reached. The loop returns the database on
  disk (\<open>None\<close> while the file does not exist) and either the database in memory or
  the exception or exit status that ended the run.
\<close>

fun fetch_loop ::
  "('db \<Rightarrow> string \<Rightarrow> string option \<Rightarrow> int \<Rightarrow> error + 'db \<times> bool) \<Rightarrow> FetchArgs \<Rightarrow> (nat \<times> string) list
     \<Rightarrow> 'db \<Rightarrow> 'db option \<Rightarrow> 'db option \<times> (error + 'db)" where
  "fetch_loop process args [] track_db file = (file, Inr track_db)"
| "fetch_loop process args ((idx, track_id_def) # rest) track_db file =
     (if length (strip track_id_def) = 0 \<or> startswith track_id_def ''#''
      then fetch_loop process args rest track_db file
      else
        let tokens = split_on (CHR '';'') track_id_def;
            track_id = tokens ! 0;
            track_set = resolve_set_id args tokens
        in case (if length tokens > 2 then int_of_str (tokens ! 2) else Some (int idx + 1)) of
             None \<Rightarrow> (file, Inl ValueError)
           | Some track_index \<Rightarrow>
               if track_set = None \<and> \<not> db_reprocess_mode args then (file, Inl (Exit 1))
               else
                 (case process track_db track_id track_set track_index of
                    Inl e \<Rightarrow> (file, Inl e)
                  | Inr (track_db', saved) \<Rightarrow>
                      fetch_loop process args rest track_db'
                        (if saved then Some track_db' else file)))"

text \<open>The loop and the last \<open>save_track_db\<close> after it.\<close>

definition fetch_main ::
  "('db \<Rightarrow> string \<Rightarrow> string option \<Rightarrow> int \<Rightarrow> error + 'db \<times> bool) \<Rightarrow> FetchArgs \<Rightarrow> string list
     \<Rightarrow> 'db \<Rightarrow> 'db option \<Rightarrow> 'db option \<times> (error + unit)" where
  "fetch_main process args lines track_db file =
     (case fetch_loop process args (enumerate 0 (map strip lines)) track_db file of
        (file', Inl e) \<Rightarrow> (file', Inl e)
      | (file', Inr track_db') \<Rightarrow> (Some track_db', Inr ()))"

section \<open>Sample data\<close>

text \<open>A card with a given title, for the concrete examples below.\<close>

definition card :: "string \<Rightarrow> Track" where
  "card name = \<lparr>release_date = \<lparr>year = 2000, month = 1, day = 1\<rparr>, title = name,
     artist = ''Artist'', album = ''Album'', album_track = 1, track_url = ''u'',
     album_url = ''a'', artist_url = ''r'', set_label = ''s'', set_index = 0\<rparr>"

text \<open>
  A database record with the title \<open>Title X\<close> and the artist \<open>Artist Y\<close>, with a given
  \<open>set\<close> key (or none) and given \<open>sets\<close>; and a command line of the renderer that
  excludes the set \<open>setA\<close>, with or without fuzzy matching.
\<close>

definition sample_record :: "string option \<Rightarrow> (string \<times> int) list \<Rightarrow> TrackData" where
  "sample_record old_set sets =
     \<lparr>db_release_date = Some \<lparr>year = 1999, month = 5, day = 17\<rparr>,
      db_title_clean = ''Title X'', db_title_override = None,
      db_artist = ''Artist Y'', db_artist_override = None,
      db_album_clean = ''Album Z'', db_album_override = None,
      db_album_track = Some 3, db_track_url = ''t'', db_album_url = ''a'', db_artist_url = ''r'',
      db_set = old_set, db_sets = sets\<rparr>"

definition skip_setA :: "bool \<Rightarrow> Args" where
  "skip_setA fuzzy =
     \<lparr>offset_count = None, limit_count = None, set_name = None, set_alias = None,
      skip_if_set = Some ''setA'', fuzzy_track_dupes = fuzzy\<rparr>"

definition sample_card :: "string \<Rightarrow> int \<Rightarrow> Track" where
  "sample_card label idx =
     \<lparr>release_date = \<lparr>year = 1999, month = 5, day = 17\<rparr>, title = ''Title X'',
      artist = ''Artist Y'', album = ''Album Z'', album_track = 3, track_url = ''t'',
      album_url = ''a'', artist_url = ''r'', set_label = label, set_index = idx\<rparr>"


section \<open>Properties of the page renderer\<close>

lemma place_cells_enumerate:
  assumes "width t \<noteq> 0"
  shows "place_cells m t (enumerate n xs) =
           Inr (map (\<lambda>(i, track). (case m of
                   Qr \<Rightarrow> (width t - 1 - (int i mod width t), int i div width t, track)
                 | Title \<Rightarrow> (int i mod width t, int i div width t, track))) (enumerate n xs))"
  using assms
  by (induction xs arbitrary: n) (auto simp: grid_cell_def split: mode.splits)

text \<open>
  Claim C1. For a table of non-zero width rendered in both modes, the card at row-major
  index \<open>i\<close> is placed in column \<open>width - 1 - (i mod width)\<close> on the code side and in
  column \<open>i mod width\<close> on the title side, in row \<open>i div width\<close> on both sides; the two
  columns add up to \<open>width - 1\<close>, and for a positive width both lie inside the grid.
\<close>

theorem mirror_invariant:
  assumes "width t \<noteq> 0" and "i < length (cells t)"
  shows "\<exists>qs ts. render_cells Qr t = Inr qs \<and> render_cells Title t = Inr ts
           \<and> qs ! i = (width t - 1 - (int i mod width t), int i div width t, cells t ! i)
           \<and> ts ! i = (int i mod width t, int i div width t, cells t ! i)
           \<and> fst (qs ! i) + fst (ts ! i) = width t - 1
           \<and> fst (snd (qs ! i)) = fst (snd (ts ! i))
           \<and> (0 < width t \<longrightarrow> 0 \<le> fst (qs ! i) \<and> fst (qs ! i) < width t
                               \<and> 0 \<le> fst (ts ! i) \<and> fst (ts ! i) < width t)"
proof -
  have "0 < width t \<longrightarrow> - 1 < int i mod width t"
    using pos_mod_sign [of "width t" "int i"] by linarith
  with assms show ?thesis
    by (simp add: render_cells_def place_cells_enumerate nth_enumerate_eq)
qed

theorem mirror_invariant_witness:
  "width \<lparr>cells = map card [''a'', ''b'', ''c'', ''d'', ''e''], width = 3, height = 4\<rparr> \<noteq> 0
   \<and> 3 < length (cells \<lparr>cells = map card [''a'', ''b'', ''c'', ''d'', ''e''], width = 3, height = 4\<rparr>)
   \<and> (\<exists>qs ts. render_cells Qr \<lparr>cells = map card [''a'', ''b'', ''c'', ''d'', ''e''], width = 3, height = 4\<rparr> = Inr qs
         \<and> render_cells Title \<lparr>cells = map card [''a'', ''b'', ''c'', ''d'', ''e''], width = 3, height = 4\<rparr> = Inr ts
         \<and> qs ! 3 = (2, 1, card ''d'') \<and> ts ! 3 = (0, 1, card ''d''))"
  using mirror_invariant [of "\<lparr>cells = map card [''a'', ''b'', ''c'', ''d'', ''e''], width = 3, height = 4\<rparr>" 3]
  by simp blast

section \<open>Properties of the paginator\<close>

lemma ceil12: "((n::nat) + 11) div 12 = n div 12 + (if n mod 12 = 0 then 0 else 1)"
proof -
  obtain q r where n: "n = 12 * q + r" and r: "r < 12"
    by (metis mod_less_divisor mult_div_mod_eq zero_less_numeral)
  have "(12 * q + r + 11) div 12 = q + (r + 11) div 12"
    by simp
  moreover have "(r + 11) div 12 = (if r = 0 then 0 else 1)"
    using r by (auto simp: div_eq_0_iff intro!: Euclidean_Rings.div_nat_eqI)
  moreover have "n div 12 = q" "n mod 12 = r" using n r by simp_all
  ultimately show ?thesis using n by simp
qed

lemma paginate_loop_inv:
  assumes "width table = 3" "height table = 4" "length (cells table) < 12"
  shows "\<exists>new. snd (paginate_loop ts table tables) = tables @ new
           \<and> (\<forall>x \<in> set new. length (cells x) = 12)
           \<and> length new = (length (cells table) + length ts) div 12
           \<and> concat (map cells new) @ cells (fst (paginate_loop ts table tables)) = cells table @ ts
           \<and> width (fst (paginate_loop ts table tables)) = 3
           \<and> height (fst (paginate_loop ts table tables)) = 4
           \<and> length (cells (fst (paginate_loop ts table tables))) = (length (cells table) + length ts) mod 12"
  using assms
proof (induction ts arbitrary: table tables)
  case Nil
  then show ?case by simp
next
  case (Cons track ts)
  let ?t' = "append_track table track"
  show ?case
  proof (cases "is_full ?t'")
    case True
    with Cons.prems have len: "length (cells ?t') = 12"
      by (simp add: is_full_def append_track_def)
    have "\<exists>new. snd (paginate_loop ts Table_new (tables @ [?t'])) = (tables @ [?t']) @ new
           \<and> (\<forall>x \<in> set new. length (cells x) = 12)
           \<and> length new = (length (cells Table_new) + length ts) div 12
           \<and> concat (map cells new) @ cells (fst (paginate_loop ts Table_new (tables @ [?t']))) = cells Table_new @ ts
           \<and> width (fst (paginate_loop ts Table_new (tables @ [?t']))) = 3
           \<and> height (fst (paginate_loop ts Table_new (tables @ [?t']))) = 4
           \<and> length (cells (fst (paginate_loop ts Table_new (tables @ [?t'])))) = (length (cells Table_new) + length ts) mod 12"
      by (rule Cons.IH) (simp_all add: Table_new_def)
    then obtain new where new: "snd (paginate_loop ts Table_new (tables @ [?t'])) = (tables @ [?t']) @ new"
        "\<forall>x \<in> set new. length (cells x) = 12"
        "length new = (length ts) div 12"
        "concat (map cells new) @ cells (fst (paginate_loop ts Table_new (tables @ [?t']))) = ts"
        "width (fst (paginate_loop ts Table_new (tables @ [?t']))) = 3"
        "height (fst (paginate_loop ts Table_new (tables @ [?t']))) = 4"
        "length (cells (fst (paginate_loop ts Table_new (tables @ [?t'])))) = (length ts) mod 12"
      by (auto simp: Table_new_def)
    have l11: "length (cells table) = 11" using len by (simp add: append_track_def)
    show ?thesis
      apply (rule exI [of _ "?t' # new"])
      using True new len l11
      by (simp add: Let_def append_track_def)
  next
    case False
    with Cons.prems have len: "length (cells ?t') < 12" "width ?t' = 3" "height ?t' = 4"
      by (simp_all add: is_full_def append_track_def)
    from Cons.IH [OF len(2,3,1), of tables] obtain new where
       new: "snd (paginate_loop ts ?t' tables) = tables @ new"
        "\<forall>x \<in> set new. length (cells x) = 12"
        "length new = (length (cells ?t') + length ts) div 12"
        "concat (map cells new) @ cells (fst (paginate_loop ts ?t' tables)) = cells ?t' @ ts"
        "width (fst (paginate_loop ts ?t' tables)) = 3"
        "height (fst (paginate_loop ts ?t' tables)) = 4"
        "length (cells (fst (paginate_loop ts ?t' tables))) = (length (cells ?t') + length ts) mod 12"
      by blast
    show ?thesis
      apply (rule exI [of _ new])
      using False new
      by (simp add: Let_def append_track_def)
  qed
qed


lemma paginate_split:
  "\<exists>new. paginate ts = (if cells (fst (paginate_loop ts Table_new [])) \<noteq> []
                         then new @ [fst (paginate_loop ts Table_new [])] else new)
     \<and> (\<forall>x \<in> set new. length (cells x) = 12)
     \<and> length new = length ts div 12
     \<and> concat (map cells new) @ cells (fst (paginate_loop ts Table_new [])) = ts
     \<and> length (cells (fst (paginate_loop ts Table_new []))) = length ts mod 12"
proof -
  have w: "width Table_new = 3" and h: "height Table_new = 4"
    and l: "length (cells Table_new) < 12" and c: "cells Table_new = []"
    by (simp_all add: Table_new_def)
  from paginate_loop_inv [OF w h l, of ts "[]"]
  obtain new where new: "snd (paginate_loop ts Table_new []) = [] @ new"
      "\<forall>x \<in> set new. length (cells x) = 12"
      "length new = (length (cells Table_new) + length ts) div 12"
      "concat (map cells new) @ cells (fst (paginate_loop ts Table_new [])) = cells Table_new @ ts"
      "length (cells (fst (paginate_loop ts Table_new []))) = (length (cells Table_new) + length ts) mod 12"
    by blast
  have "paginate ts = (if cells (fst (paginate_loop ts Table_new [])) \<noteq> []
                         then new @ [fst (paginate_loop ts Table_new [])] else new)"
    using new(1) by (cases "paginate_loop ts Table_new []") (simp add: paginate_def is_empty_def)
  with new(2-5) c show ?thesis by auto
qed

text \<open>
  Claim C2. For every sequence of \<open>n\<close> cards, pagination with the tables of capacity
  \<open>3 * 4 = 12\<close> produces \<open>(n + 11) div 12\<close> tables, that is \<open>ceil (n / 12)\<close> and none for
  \<open>n = 0\<close>; every table but the last holds exactly 12 cards, every table holds between 1
  and 12 cards, the cards of all tables add up to \<open>n\<close>, and the tables read in order give
  back the input sequence.
\<close>

theorem pagination_size_preserving:
  "length (paginate ts) = (length ts + 11) div 12
   \<and> (\<forall>k. Suc k < length (paginate ts) \<longrightarrow> length (cells (paginate ts ! k)) = 12)
   \<and> (\<forall>k < length (paginate ts). 1 \<le> length (cells (paginate ts ! k)) \<and> length (cells (paginate ts ! k)) \<le> 12)
   \<and> (\<Sum>t \<leftarrow> paginate ts. length (cells t)) = length ts
   \<and> concat (map cells (paginate ts)) = ts"
proof -
  let ?last = "fst (paginate_loop ts Table_new [])"
  obtain new where P: "paginate ts = (if cells ?last \<noteq> [] then new @ [?last] else new)"
    and full_new: "\<forall>x \<in> set new. length (cells x) = 12"
    and len_new: "length new = length ts div 12"
    and cat_new: "concat (map cells new) @ cells ?last = ts"
    and len_last: "length (cells ?last) = length ts mod 12"
    using paginate_split [of ts] by blast
  have empty_iff: "(cells ?last = []) = (length ts mod 12 = 0)"
    using len_last by (metis length_0_conv)
  have len: "length (paginate ts) = (length ts + 11) div 12"
    using P len_new empty_iff by (simp add: ceil12)
  have full: "\<forall>k. Suc k < length (paginate ts) \<longrightarrow> length (cells (paginate ts ! k)) = 12"
  proof (intro allI impI)
    fix k assume k: "Suc k < length (paginate ts)"
    have kn: "k < length new" using k P by (simp split: if_splits)
    then have "paginate ts ! k = new ! k"
      using P by (simp add: nth_append)
    moreover have "new ! k \<in> set new" using kn by simp
    ultimately show "length (cells (paginate ts ! k)) = 12"
      using full_new by simp
  qed
  have lastlen: "length (cells ?last) < 12" using len_last by simp
  have each: "1 \<le> length (cells x) \<and> length (cells x) \<le> 12" if "x \<in> set (paginate ts)" for x
  proof (cases "x \<in> set new")
    case True
    with full_new show ?thesis by simp
  next
    case False
    with that P have x: "x = ?last" and ne: "cells ?last \<noteq> []"
      by (simp_all split: if_splits)
    from ne obtain a as where "cells ?last = a # as"
      by (cases "cells ?last") auto
    then have "1 \<le> length (cells ?last)" by simp
    with x lastlen show ?thesis by simp
  qed
  have rng: "\<forall>k < length (paginate ts). 1 \<le> length (cells (paginate ts ! k)) \<and> length (cells (paginate ts ! k)) \<le> 12"
    using each nth_mem by blast
  have cat: "concat (map cells (paginate ts)) = ts"
    using cat_new P by (cases "cells ?last = []") simp_all
  have "(\<Sum>t \<leftarrow> paginate ts. length (cells t)) = length (concat (map cells (paginate ts)))"
    by (simp add: length_concat comp_def)
  with cat have total: "(\<Sum>t \<leftarrow> paginate ts. length (cells t)) = length ts" by simp
  from len full rng total cat show ?thesis by blast
qed

theorem pagination_size_preserving_witness:
  "length (paginate (replicate 13 (card ''x''))) = 2
   \<and> length (cells (paginate (replicate 13 (card ''x'')) ! 0)) = 12
   \<and> concat (map cells (paginate (replicate 13 (card ''x'')))) =
       replicate 13 (card ''x'')"
proof -
  let ?ts = "replicate 13 (card ''x'')"
  note p = pagination_size_preserving [of ?ts]
  have n: "length (paginate ?ts) = 2" using p by simp
  from p have "Suc 0 < length (paginate ?ts) \<longrightarrow> length (cells (paginate ?ts ! 0)) = 12"
    by blast
  with n have a: "length (cells (paginate ?ts ! 0)) = 12" by simp
  from p have c: "concat (map cells (paginate ?ts)) = ?ts" by blast
  from n a c show ?thesis by blast
qed

section \<open>Properties of the text fitter\<close>

lemma split_sp_not_Nil: "split_sp s \<noteq> []"
  by (induction s) (auto split: list.splits)

lemma join_sp_Cons: "ws \<noteq> [] \<Longrightarrow> join_sp (w # ws) = w @ '' '' @ join_sp ws"
  by (cases ws) simp_all

lemma join_split: "join_sp (split_sp s) = s"
proof (induction s)
  case Nil
  show ?case by simp
next
  case (Cons c cs)
  show ?case
  proof (cases "c = CHR '' ''")
    case True
    with Cons show ?thesis by (simp add: join_sp_Cons split_sp_not_Nil)
  next
    case False
    obtain w ws where sp: "split_sp cs = w # ws"
      using split_sp_not_Nil [of cs] by (cases "split_sp cs") auto
    have "join_sp ((c # w) # ws) = c # join_sp (w # ws)"
      by (cases ws) simp_all
    with False sp Cons show ?thesis by simp
  qed
qed

lemma spaced_join: "j < length ws \<Longrightarrow> spaced (take j ws) @ ws ! j = join_sp (take (Suc j) ws)"
proof (induction ws arbitrary: j)
  case Nil
  then show ?case by simp
next
  case (Cons w ws)
  show ?case
  proof (cases j)
    case 0
    then show ?thesis by simp
  next
    case (Suc m)
    with Cons.prems have m: "m < length ws" by simp
    then have "take (Suc m) ws \<noteq> []" by (cases ws) auto
    with Suc Cons.IH [OF m] show ?thesis by (simp add: join_sp_Cons)
  qed
qed

lemma spaced_eq_join: "ws \<noteq> [] \<Longrightarrow> spaced ws = join_sp ws @ '' ''"
proof (induction ws)
  case Nil
  then show ?case by simp
next
  case (Cons w ws)
  then show ?case by (cases "ws = []") (simp_all add: join_sp_Cons)
qed

lemma join_take_drop:
  "0 < i \<Longrightarrow> i < length ws \<Longrightarrow> join_sp (take i ws) @ '' '' @ join_sp (drop i ws) = join_sp ws"
proof (induction ws arbitrary: i)
  case Nil
  then show ?case by simp
next
  case (Cons w ws)
  from Cons.prems obtain m where i: "i = Suc m" by (cases i) auto
  show ?case
  proof (cases m)
    case 0
    with i Cons.prems show ?thesis by (simp add: join_sp_Cons)
  next
    case (Suc n)
    with i Cons.prems have m: "0 < m" "m < length ws" by simp_all
    then have ne: "take m ws \<noteq> []" "ws \<noteq> []" by auto
    from Cons.IH [OF m] i ne show ?thesis by (simp add: join_sp_Cons)
  qed
qed

lemma third_line_loop_Some:
  "third_line_loop ws acc i = (acc', Some k) \<Longrightarrow>
     \<exists>j<length ws. k = i + j \<and> acc' = acc @ spaced (take j ws)
        \<and> 48 \<le> length (acc @ spaced (take j ws) @ ws ! j)
        \<and> (\<forall>j'<j. length (acc @ spaced (take j' ws) @ ws ! j') < 48)"
proof (induction ws arbitrary: acc i)
  case Nil
  then show ?case by simp
next
  case (Cons w ws)
  show ?case
  proof (cases "48 \<le> length (acc @ w)")
    case True
    with Cons.prems have "acc' = acc" "k = i" by simp_all
    with True show ?thesis by (intro exI [of _ 0]) simp
  next
    case False
    with Cons.prems have "third_line_loop ws (acc @ w @ '' '') (Suc i) = (acc', Some k)"
      by simp
    from Cons.IH [OF this] obtain j where j: "j < length ws" "k = Suc i + j"
      "acc' = (acc @ w @ '' '') @ spaced (take j ws)"
      "48 \<le> length ((acc @ w @ '' '') @ spaced (take j ws) @ ws ! j)"
      "\<forall>j'<j. length ((acc @ w @ '' '') @ spaced (take j' ws) @ ws ! j') < 48"
      by blast
    have "\<forall>j'<Suc j. length (acc @ spaced (take j' (w # ws)) @ (w # ws) ! j') < 48"
    proof (intro allI impI)
      fix j' assume "j' < Suc j"
      then show "length (acc @ spaced (take j' (w # ws)) @ (w # ws) ! j') < 48"
        using False j(5) by (cases j') auto
    qed
    with j(1-4) show ?thesis by (intro exI [of _ "Suc j"]) simp
  qed
qed

lemma third_line_loop_None:
  "third_line_loop ws acc i = (acc', None) \<Longrightarrow>
     \<forall>j<length ws. length (acc @ spaced (take j ws) @ ws ! j) < 48"
proof (induction ws arbitrary: acc i)
  case Nil
  then show ?case by simp
next
  case (Cons w ws)
  have small: "\<not> 48 \<le> length (acc @ w)"
    using Cons.prems by (auto split: if_splits)
  with Cons.prems have "third_line_loop ws (acc @ w @ '' '') (Suc i) = (acc', None)"
    by simp
  from Cons.IH [OF this]
  have ih: "\<forall>j<length ws. length ((acc @ w @ '' '') @ spaced (take j ws) @ ws ! j) < 48" .
  show ?case
  proof (intro allI impI)
    fix j assume "j < length (w # ws)"
    then show "length (acc @ spaced (take j (w # ws)) @ (w # ws) ! j) < 48"
      using small ih by (cases j) auto
  qed
qed

lemma length_spaced_join:
  "j < length ws \<Longrightarrow> length (spaced (take j ws)) + length (ws ! j) = length (join_sp (take (Suc j) ws))"
  using spaced_join [of j ws] by (metis length_append)

lemma index_found:
  assumes "48 < length s"
  shows "\<exists>k<length (split_sp s).
           third_line_loop (split_sp s) [] 0 = (spaced (take k (split_sp s)), Some k)
         \<and> 48 \<le> length (join_sp (take (Suc k) (split_sp s)))
         \<and> (\<forall>j<k. length (join_sp (take (Suc j) (split_sp s))) < 48)"
proof -
  let ?ws = "split_sp s"
  obtain acc' r where res: "third_line_loop ?ws [] 0 = (acc', r)"
    by (cases "third_line_loop ?ws [] 0") auto
  show ?thesis
  proof (cases r)
    case None
    have ne: "?ws \<noteq> []" by (rule split_sp_not_Nil)
    then have l: "length ?ws - 1 < length ?ws" by simp
    from third_line_loop_None [OF res [unfolded None]] l
    have "length ([] @ spaced (take (length ?ws - 1) ?ws) @ ?ws ! (length ?ws - 1)) < 48"
      by blast
    then have "length (spaced (take (length ?ws - 1) ?ws) @ ?ws ! (length ?ws - 1)) < 48"
      by simp
    moreover have "spaced (take (length ?ws - 1) ?ws) @ ?ws ! (length ?ws - 1) = join_sp ?ws"
      using spaced_join [OF l] ne by simp
    ultimately have "length (join_sp ?ws) < 48" by metis
    then have "length s < 48" by (simp only: join_split)
    with assms show ?thesis by simp
  next
    case (Some k)
    from third_line_loop_Some [OF res [unfolded Some]]
    obtain j where j: "j < length ?ws" "k = 0 + j" "acc' = [] @ spaced (take j ?ws)"
      "48 \<le> length ([] @ spaced (take j ?ws) @ ?ws ! j)"
      "\<forall>j'<j. length ([] @ spaced (take j' ?ws) @ ?ws ! j') < 48"
      by blast
    have a: "48 \<le> length (join_sp (take (Suc k) ?ws))"
      using j(1,2,4) length_spaced_join [of k ?ws] by simp
    have b: "\<forall>j'<k. length (join_sp (take (Suc j') ?ws)) < 48"
    proof (intro allI impI)
      fix j' assume "j' < k"
      with j(1,2) have "j' < length ?ws" "j' < j" by simp_all
      from j(5) \<open>j' < j\<close>
      have "length ([] @ spaced (take j' ?ws) @ ?ws ! j') < 48" by blast
      with length_spaced_join [OF \<open>j' < length ?ws\<close>]
      show "length (join_sp (take (Suc j') ?ws)) < 48" by simp
    qed
    from res Some j(1,2,3) a b show ?thesis by auto
  qed
qed

lemma length_dropWhile_le_aux: "length (dropWhile P x) \<le> length x"
  by (induction x) auto

lemma length_strip_le: "length (strip x) \<le> length x"
  unfolding strip_def
  by (metis length_rev le_trans length_dropWhile_le_aux)

lemma isspace_space: "isspace (CHR '' '')"
  by (simp add: isspace_def whitespace_def)

lemma strip_append_space: "strip (x @ '' '') = strip x"
proof (cases "\<forall>c\<in>set x. isspace c")
  case True
  have d1: "dropWhile isspace (x @ '' '') = []"
    unfolding dropWhile_eq_Nil_conv using True isspace_space by auto
  have d2: "dropWhile isspace x = []"
    unfolding dropWhile_eq_Nil_conv using True by auto
  show ?thesis by (simp only: strip_def d1 d2)
next
  case False
  then obtain c where "c \<in> set x" "\<not> isspace c" by blast
  then have "dropWhile isspace (x @ '' '') = dropWhile isspace x @ '' ''"
    by (rule dropWhile_append1)
  then show ?thesis by (simp add: strip_def isspace_space)
qed

lemma strip_spaced: "strip (spaced ws) = strip (join_sp ws)"
  by (cases "ws = []") (simp_all add: spaced_eq_join strip_append_space)

lemma prefix_short:
  assumes "\<forall>j<k. length (join_sp (take (Suc j) ws)) < 48"
  shows "length (strip (join_sp (take k ws))) < 48"
proof (cases k)
  case 0
  then show ?thesis by (simp add: strip_def)
next
  case (Suc m)
  with assms have "length (join_sp (take k ws)) < 48" by simp
  with length_strip_le [of "join_sp (take k ws)"] show ?thesis by linarith
qed

lemma length_two_lines: "length (two_lines ws) = 2"
  by (simp add: two_lines_def Let_def split: prod.splits)

lemma line_break_text_short:
  "length p \<le> 48 \<Longrightarrow> line_break_text p = (if length p < 24 then [p] else two_lines (split_sp p))"
  by (subst line_break_text.simps) simp

lemma line_break_text_long:
  "48 < length s \<Longrightarrow> line_break_text s =
     line_break_text (strip (fst (third_line_loop (split_sp s) [] 0)))
       @ [join_sp (slice_from (snd (third_line_loop (split_sp s) [] 0)) (split_sp s))]"
  by (subst line_break_text.simps) simp

text \<open>
  Claim C3, as amended. A string shorter than 24 characters is returned unchanged as a
  single line. For a string strictly longer than 48 characters there is a word index
  \<open>k\<close> such that the first \<open>j + 1\<close> words joined stay under 48 characters for every
  \<open>j < k\<close>, the first \<open>k + 1\<close> words joined reach 48 characters, and the result is the
  fitting of the first \<open>k\<close> words (joined and stripped, under 48 characters, so fitted
  without a further three-line split) followed by one line with the remaining
  words; it has three lines when that prefix has at least 24 characters and two
  lines otherwise.
\<close>

theorem fitter_thresholds:
  "(length s < 24 \<longrightarrow> line_break_text s = [s])
   \<and> (48 < length s \<longrightarrow>
        (\<exists>k<length (split_sp s).
            (\<forall>j<k. length (join_sp (take (Suc j) (split_sp s))) < 48)
          \<and> 48 \<le> length (join_sp (take (Suc k) (split_sp s)))
          \<and> length (strip (join_sp (take k (split_sp s)))) < 48
          \<and> line_break_text s =
              line_break_text (strip (join_sp (take k (split_sp s)))) @ [join_sp (drop k (split_sp s))]
          \<and> length (line_break_text s) =
              (if length (strip (join_sp (take k (split_sp s)))) < 24 then 2 else 3)))"
proof (intro conjI impI)
  assume "length s < 24"
  then show "line_break_text s = [s]" by (simp add: line_break_text_short)
next
  assume big: "48 < length s"
  let ?ws = "split_sp s"
  from index_found [OF big] obtain k where k: "k < length ?ws"
    and loop: "third_line_loop ?ws [] 0 = (spaced (take k ?ws), Some k)"
    and reach: "48 \<le> length (join_sp (take (Suc k) ?ws))"
    and under: "\<forall>j<k. length (join_sp (take (Suc j) ?ws)) < 48"
    by blast
  let ?p = "strip (join_sp (take k ?ws))"
  have short: "length ?p < 48" using under by (rule prefix_short)
  have res: "line_break_text s = line_break_text ?p @ [join_sp (drop k ?ws)]"
    using line_break_text_long [OF big] loop by (simp add: slice_from_def strip_spaced)
  have "length (line_break_text ?p) = (if length ?p < 24 then 1 else 2)"
    using short by (simp add: line_break_text_short length_two_lines)
  with res have "length (line_break_text s) = (if length ?p < 24 then 2 else 3)"
    by simp
  with k under reach short res
  show "\<exists>k<length ?ws.
            (\<forall>j<k. length (join_sp (take (Suc j) ?ws)) < 48)
          \<and> 48 \<le> length (join_sp (take (Suc k) ?ws))
          \<and> length (strip (join_sp (take k ?ws))) < 48
          \<and> line_break_text s =
              line_break_text (strip (join_sp (take k ?ws))) @ [join_sp (drop k ?ws)]
          \<and> length (line_break_text s) =
              (if length (strip (join_sp (take k ?ws))) < 24 then 2 else 3)"
    by blast
qed

theorem fitter_thresholds_witness:
  "length ''Short title'' < 24 \<and> line_break_text ''Short title'' = [''Short title'']
   \<and> 48 < length ''The quick brown fox jumps over the lazy dog and keeps running far away''
   \<and> (\<exists>k<length (split_sp ''The quick brown fox jumps over the lazy dog and keeps running far away'').
         line_break_text ''The quick brown fox jumps over the lazy dog and keeps running far away'' =
           line_break_text (strip (join_sp (take k
              (split_sp ''The quick brown fox jumps over the lazy dog and keeps running far away''))))
           @ [join_sp (drop k (split_sp ''The quick brown fox jumps over the lazy dog and keeps running far away''))])"
proof -
  have a: "length ''Short title'' < 24" by simp
  with fitter_thresholds [of "''Short title''"]
  have b: "line_break_text ''Short title'' = [''Short title'']" by blast
  have c: "48 < length ''The quick brown fox jumps over the lazy dog and keeps running far away''"
    by simp
  with fitter_thresholds [of "''The quick brown fox jumps over the lazy dog and keeps running far away''"]
  have "\<exists>k<length (split_sp ''The quick brown fox jumps over the lazy dog and keeps running far away'').
         line_break_text ''The quick brown fox jumps over the lazy dog and keeps running far away'' =
           line_break_text (strip (join_sp (take k
              (split_sp ''The quick brown fox jumps over the lazy dog and keeps running far away''))))
           @ [join_sp (drop k (split_sp ''The quick brown fox jumps over the lazy dog and keeps running far away''))]"
    by blast
  with a b c show ?thesis by blast
qed

text \<open>
  The claim as stated fails at a string of exactly 48 characters, which takes the
  two-line branch, and at a string over 48 characters whose accumulated prefix is
  short, which gets two lines.
\<close>

theorem fitter_thresholds_counterexample:
  "length ''aaaaaaa bbbbbbb ccccccc ddddddd eeeeeee ffffffff'' = 48
   \<and> line_break_text ''aaaaaaa bbbbbbb ccccccc ddddddd eeeeeee ffffffff'' =
       [''aaaaaaa bbbbbbb ccccccc'', ''ddddddd eeeeeee ffffffff'']
   \<and> 48 < length ''short xxxxxxxxxxxxxxxxxxxxxxxxxxxxxxxxxxxxxxxxxxxxxxxxxx''
   \<and> line_break_text ''short xxxxxxxxxxxxxxxxxxxxxxxxxxxxxxxxxxxxxxxxxxxxxxxxxx'' =
       [''short'', ''xxxxxxxxxxxxxxxxxxxxxxxxxxxxxxxxxxxxxxxxxxxxxxxxxx'']"
  by code_simp

text \<open>
  Claim C4 (the code departs from it). The loop of the two-line branch runs over
  \<open>range(1, len(words) - 1)\<close> and so never tries the break before the last word: a
  two-word string is left whole with an empty second line, and in the second string
  the break before the last word, with lengths 3 and 24, is passed over for the one
  with lengths 1 and 26.
\<close>

theorem two_line_split_skips_last_boundary:
  "line_break_text ''aaaaaaaaaaaa bbbbbbbbbbbb'' = [''aaaaaaaaaaaa bbbbbbbbbbbb'', []]
   \<and> line_break_text ''a b cccccccccccccccccccccccc'' = [''a'', ''b cccccccccccccccccccccccc'']
   \<and> \<bar>int (length ''a b'') - int (length ''cccccccccccccccccccccccc'')\<bar>
       < \<bar>int (length ''a'') - int (length ''b cccccccccccccccccccccccc'')\<bar>"
  by code_simp

text \<open>
  Claim C10. For a string longer than 48 characters the loop of the three-line branch
  ends with a word index inside the word list, never with \<open>None\<close>, and the string
  passed to the recursive call is under 48 characters, so that call returns without
  recursing again; for every string the function returns between one and three
  lines. \<open>line_break_text\<close> is a total function of the logic, by its termination
  proof.
\<close>

theorem fitter_total:
  "(48 < length s \<longrightarrow>
      (\<exists>k<length (split_sp s). snd (third_line_loop (split_sp s) [] 0) = Some k)
    \<and> length (strip (fst (third_line_loop (split_sp s) [] 0))) < 48
    \<and> line_break_text (strip (fst (third_line_loop (split_sp s) [] 0))) =
        (if length (strip (fst (third_line_loop (split_sp s) [] 0))) < 24
         then [strip (fst (third_line_loop (split_sp s) [] 0))]
         else two_lines (split_sp (strip (fst (third_line_loop (split_sp s) [] 0))))))
   \<and> 1 \<le> length (line_break_text s) \<and> length (line_break_text s) \<le> 3"
proof -
  have long: "(\<exists>k<length (split_sp s). snd (third_line_loop (split_sp s) [] 0) = Some k)
    \<and> length (strip (fst (third_line_loop (split_sp s) [] 0))) < 48
    \<and> line_break_text (strip (fst (third_line_loop (split_sp s) [] 0))) =
        (if length (strip (fst (third_line_loop (split_sp s) [] 0))) < 24
         then [strip (fst (third_line_loop (split_sp s) [] 0))]
         else two_lines (split_sp (strip (fst (third_line_loop (split_sp s) [] 0)))))"
    if big: "48 < length s"
  proof -
    let ?ws = "split_sp s"
    from index_found [OF big] obtain k where k: "k < length ?ws"
      and loop: "third_line_loop ?ws [] 0 = (spaced (take k ?ws), Some k)"
      and under: "\<forall>j<k. length (join_sp (take (Suc j) ?ws)) < 48"
      by blast
    have "length (strip (join_sp (take k ?ws))) < 48" using under by (rule prefix_short)
    then have short: "length (strip (fst (third_line_loop ?ws [] 0))) < 48"
      using loop by (simp add: strip_spaced)
    then have "length (strip (fst (third_line_loop ?ws [] 0))) \<le> 48" by simp
    from line_break_text_short [OF this] k loop short show ?thesis by auto
  qed
  have lines: "1 \<le> length (line_break_text s) \<and> length (line_break_text s) \<le> 3"
  proof (cases "48 < length s")
    case True
    from long [OF True]
    have "length (line_break_text (strip (fst (third_line_loop (split_sp s) [] 0)))) \<le> 2"
      by (simp add: length_two_lines)
    with line_break_text_long [OF True] show ?thesis by simp
  next
    case False
    then have "length s \<le> 48" by simp
    from line_break_text_short [OF this] show ?thesis by (simp add: length_two_lines)
  qed
  from long lines show ?thesis by blast
qed

theorem fitter_total_witness:
  "48 < length ''The quick brown fox jumps over the lazy dog and keeps running far away''
   \<and> (\<exists>k<length (split_sp ''The quick brown fox jumps over the lazy dog and keeps running far away'').
        snd (third_line_loop (split_sp ''The quick brown fox jumps over the lazy dog and keeps running far away'') [] 0) = Some k)
   \<and> length (line_break_text ''The quick brown fox jumps over the lazy dog and keeps running far away'') \<le> 3"
proof -
  have c: "48 < length ''The quick brown fox jumps over the lazy dog and keeps running far away''"
    by simp
  with fitter_total [of "''The quick brown fox jumps over the lazy dog and keeps running far away''"]
  show ?thesis by blast
qed

lemma fitter_nonempty: "line_break_text s \<noteq> []"
proof (cases "48 < length s")
  case True
  from line_break_text_long [OF True] show ?thesis by simp
next
  case False
  then have "length s \<le> 48" by simp
  from line_break_text_short [OF this] length_two_lines [of "split_sp s"] show ?thesis
    by (cases "length s < 24") auto
qed

lemma join_sp_snoc: "xs \<noteq> [] \<Longrightarrow> join_sp (xs @ [y]) = join_sp xs @ '' '' @ y"
  by (induction xs rule: join_sp.induct) simp_all

lemma strip_id:
  assumes "x \<noteq> []" "\<not> isspace (hd x)" "\<not> isspace (last x)"
  shows "strip x = x"
proof -
  from assms(1,2) have "dropWhile isspace x = x" by (cases x) simp_all
  moreover from assms(1,3) have "dropWhile isspace (rev x) = rev x"
    by (cases "rev x") (simp_all add: last_rev [symmetric] hd_rev)
  ultimately show ?thesis by (simp add: strip_def)
qed

lemma hd_join_sp: "ws \<noteq> [] \<Longrightarrow> hd ws \<noteq> [] \<Longrightarrow> hd (join_sp ws) = hd (hd ws)"
  by (cases ws rule: join_sp.cases) simp_all

lemma join_sp_not_Nil: "ws \<noteq> [] \<Longrightarrow> last ws \<noteq> [] \<Longrightarrow> join_sp ws \<noteq> []"
  by (induction ws rule: join_sp.induct) simp_all

lemma last_join_sp: "ws \<noteq> [] \<Longrightarrow> last ws \<noteq> [] \<Longrightarrow> last (join_sp ws) = last (last ws)"
proof (induction ws rule: join_sp.induct)
  case 1
  then show ?case by simp
next
  case (2 w)
  then show ?case by simp
next
  case (3 w v ws)
  then have "join_sp (v # ws) \<noteq> []" by (simp add: join_sp_not_Nil)
  with 3 show ?case by simp
qed

lemma strip_join_words:
  assumes ok: "\<forall>w\<in>set ws. w \<noteq> [] \<and> (\<forall>c\<in>set w. \<not> isspace c)" and "ws \<noteq> []"
  shows "strip (join_sp ws) = join_sp ws"
proof (rule strip_id)
  have h: "hd ws \<in> set ws" and l: "last ws \<in> set ws" using assms(2) by simp_all
  with ok have hne: "hd ws \<noteq> []" and lne: "last ws \<noteq> []" by blast+
  show "join_sp ws \<noteq> []" using assms(2) lne by (rule join_sp_not_Nil)
  have "hd (hd ws) \<in> set (hd ws)" using hne by simp
  with ok h have "\<not> isspace (hd (hd ws))" by blast
  then show "\<not> isspace (hd (join_sp ws))" using hd_join_sp [OF assms(2) hne] by simp
  have "last (last ws) \<in> set (last ws)" using lne by simp
  with ok l have "\<not> isspace (last (last ws))" by blast
  then show "\<not> isspace (last (join_sp ws))" using last_join_sp [OF assms(2) lne] by simp
qed

lemma split_sp_word: "CHR '' '' \<notin> set w \<Longrightarrow> split_sp w = [w]"
  by (induction w) auto

lemma split_sp_word_space: "CHR '' '' \<notin> set w \<Longrightarrow> split_sp (w @ CHR '' '' # r) = w # split_sp r"
  by (induction w) auto

lemma split_join:
  "ws \<noteq> [] \<Longrightarrow> \<forall>w\<in>set ws. CHR '' '' \<notin> set w \<Longrightarrow> split_sp (join_sp ws) = ws"
proof (induction ws rule: join_sp.induct)
  case 1
  then show ?case by simp
next
  case (2 w)
  then show ?case by (simp add: split_sp_word)
next
  case (3 w v ws)
  then show ?case by (simp add: split_sp_word_space)
qed

lemma length_join_sum:
  "ws \<noteq> [] \<Longrightarrow> length (join_sp ws) + 1 = sum_list (map length ws) + length ws"
  by (induction ws rule: join_sp.induct) simp_all

lemma length_join_ge:
  "ws \<noteq> [] \<Longrightarrow> \<forall>w\<in>set ws. w \<noteq> [] \<Longrightarrow> 2 * length ws \<le> length (join_sp ws) + 1"
proof (induction ws rule: join_sp.induct)
  case 1
  then show ?case by simp
next
  case (2 w)
  then show ?case by (cases w) simp_all
next
  case (3 w v ws)
  then have "2 * length (v # ws) \<le> length (join_sp (v # ws)) + 1" by simp
  moreover from 3 have "w \<noteq> []" by simp
  ultimately show ?case by (cases w) simp_all
qed

lemma length_join_take_mono: "j \<le> k \<Longrightarrow> length (join_sp (take j ws)) \<le> length (join_sp (take k ws))"
proof (induction ws arbitrary: j k)
  case Nil
  show ?case by simp
next
  case (Cons w ws)
  show ?case
  proof (cases j)
    case 0
    then show ?thesis by simp
  next
    case (Suc j')
    with Cons.prems obtain k' where k: "k = Suc k'" and le: "j' \<le> k'" by (cases k) auto
    have jc: "length (join_sp (w # take j' ws)) = (if take j' ws = [] then length w else length w + 1 + length (join_sp (take j' ws)))"
      by (simp add: join_sp_Cons)
    have kc: "length (join_sp (w # take k' ws)) = (if take k' ws = [] then length w else length w + 1 + length (join_sp (take k' ws)))"
      by (simp add: join_sp_Cons)
    have e: "take k' ws = [] \<Longrightarrow> take j' ws = []" using le by auto
    from Cons.IH [OF le] jc kc e Suc k show ?thesis by (simp split: if_splits)
  qed
qed

lemma balance_loop_trace:
  "balance_loop ws is (t0, b0, d0) = (t, b, d) \<Longrightarrow>
     (t = t0 \<and> b = b0 \<and>
        (\<forall>i\<in>set is. d0 \<le> \<bar>int (length (join_sp (take i ws))) - int (length (join_sp (drop i ws)))\<bar>))
     \<or> (\<exists>i\<in>set is. t = join_sp (take i ws) \<and> b = join_sp (drop i ws))"
proof (induction "is" arbitrary: t0 b0 d0)
  case Nil
  then show ?case by simp
next
  case (Cons i "is")
  let ?t = "join_sp (take i ws)" and ?b = "join_sp (drop i ws)"
  let ?d = "\<bar>int (length ?t) - int (length ?b)\<bar>"
  show ?case
  proof (cases "?d < d0")
    case True
    with Cons.prems have "balance_loop ws is (?t, ?b, ?d) = (t, b, d)"
      by (simp add: Let_def)
    from Cons.IH [OF this] show ?thesis by auto
  next
    case False
    with Cons.prems have "balance_loop ws is (t0, b0, d0) = (t, b, d)"
      by (simp add: Let_def)
    from Cons.IH [OF this] False show ?thesis by auto
  qed
qed

lemma middle_split_closer:
  assumes ne: "\<forall>w\<in>set ws. w \<noteq> []" and three: "3 \<le> length ws"
  shows "\<bar>int (length (join_sp (take (length ws div 2) ws))) - int (length (join_sp (drop (length ws div 2) ws)))\<bar>
           < int (sum_list (map length ws))"
proof -
  let ?m = "length ws" and ?i = "length ws div 2"
  let ?T = "length (join_sp (take ?i ws))" and ?B = "length (join_sp (drop ?i ws))"
  have i: "0 < ?i" "?i < ?m" "?m < 4 * ?i" "4 * ?i < 3 * ?m" using three by auto
  have tne: "take ?i ws \<noteq> []" and dne: "drop ?i ws \<noteq> []" using i by auto
  have "\<forall>w\<in>set (take ?i ws). w \<noteq> []" using ne by (meson in_set_takeD)
  with tne have "2 * length (take ?i ws) \<le> ?T + 1" by (rule length_join_ge)
  then have T: "2 * ?i \<le> ?T + 1" using i by simp
  have "\<forall>w\<in>set (drop ?i ws). w \<noteq> []" using ne by (meson in_set_dropD)
  with dne have "2 * length (drop ?i ws) \<le> ?B + 1" by (rule length_join_ge)
  then have B: "2 * (?m - ?i) \<le> ?B + 1" by simp
  have "length (join_sp (take ?i ws) @ '' '' @ join_sp (drop ?i ws)) = length (join_sp ws)"
    using join_take_drop [OF i(1,2)] by simp
  then have n: "?T + 1 + ?B = length (join_sp ws)" by simp
  have "ws \<noteq> []" using three by auto
  then have "length (join_sp ws) + 1 = sum_list (map length ws) + ?m" by (rule length_join_sum)
  with n have C: "?T + ?B + 2 = sum_list (map length ws) + ?m" by simp
  from T B C i show ?thesis by linarith
qed

lemma two_lines_ok:
  assumes ne: "\<forall>w\<in>set ws. w \<noteq> []" and "ws \<noteq> []"
  shows "\<exists>t b. two_lines ws = [t, b] \<and> t \<noteq> []
           \<and> ((t = join_sp ws \<and> b = [] \<and> length ws < 3) \<or> (t @ '' '' @ b = join_sp ws \<and> b \<noteq> []))"
proof -
  obtain t b d where res:
    "balance_loop ws [1..<length ws - 1] (join_sp ws, [], int (sum_list (map length ws))) = (t, b, d)"
    by (metis prod_cases3)
  then have tl: "two_lines ws = [t, b]" by (simp add: two_lines_def)
  have jne: "join_sp xs \<noteq> []" if "xs \<noteq> []" "set xs \<subseteq> set ws" for xs
  proof -
    from that ne have "\<forall>w\<in>set xs. w \<noteq> []" by blast
    with that(1) have "2 * length xs \<le> length (join_sp xs) + 1" by (rule length_join_ge)
    then show ?thesis using that(1) by (cases xs) auto
  qed
  from balance_loop_trace [OF res]
  have "t \<noteq> [] \<and> ((t = join_sp ws \<and> b = [] \<and> length ws < 3) \<or> (t @ '' '' @ b = join_sp ws \<and> b \<noteq> []))"
  proof
    assume a: "t = join_sp ws \<and> b = [] \<and>
      (\<forall>i\<in>set [1..<length ws - 1]. int (sum_list (map length ws))
          \<le> \<bar>int (length (join_sp (take i ws))) - int (length (join_sp (drop i ws)))\<bar>)"
    have "length ws < 3"
    proof (rule ccontr)
      assume "\<not> length ws < 3"
      then have three: "3 \<le> length ws" by simp
      then have "length ws div 2 \<in> set [1..<length ws - 1]" by auto
      with a have "int (sum_list (map length ws))
          \<le> \<bar>int (length (join_sp (take (length ws div 2) ws))) - int (length (join_sp (drop (length ws div 2) ws)))\<bar>"
        by blast
      with middle_split_closer [OF ne three] show False by simp
    qed
    moreover have "join_sp ws \<noteq> []" using assms(2) by (rule jne) simp
    ultimately show ?thesis using a by simp
  next
    assume "\<exists>i\<in>set [1..<length ws - 1]. t = join_sp (take i ws) \<and> b = join_sp (drop i ws)"
    then obtain i where m: "i \<in> set [1..<length ws - 1]"
      and tb: "t = join_sp (take i ws)" "b = join_sp (drop i ws)"
      by blast
    from m have i: "0 < i" "i < length ws" by auto
    have "take i ws \<noteq> []" using i by auto
    then have "t \<noteq> []" unfolding tb by (rule jne) (rule set_take_subset)
    moreover have "drop i ws \<noteq> []" using i by auto
    then have "b \<noteq> []" unfolding tb by (rule jne) (rule set_drop_subset)
    moreover from join_take_drop [OF i] tb have "t @ '' '' @ b = join_sp ws" by simp
    ultimately show ?thesis by simp
  qed
  with tl show ?thesis by blast
qed

declare line_break_text.simps [simp del]

lemma fitted_short_lines:
  assumes le: "length p \<le> 48" and ne: "\<forall>w\<in>set (split_sp p). w \<noteq> []"
  shows "join_sp (filter (\<lambda>line. line \<noteq> []) (line_break_text p)) = p
       \<and> (length p < 24 \<or> 3 \<le> length (split_sp p) \<longrightarrow> join_sp (line_break_text p) = p)"
proof (cases "length p < 24")
  case True
  have "p \<noteq> []" using ne by auto
  with True le show ?thesis by (simp add: line_break_text_short)
next
  case False
  with le have eq: "line_break_text p = two_lines (split_sp p)"
    by (simp add: line_break_text_short)
  from two_lines_ok [OF ne split_sp_not_Nil] obtain t b where tb: "two_lines (split_sp p) = [t, b]"
    and t: "t \<noteq> []"
    and c: "(t = join_sp (split_sp p) \<and> b = [] \<and> length (split_sp p) < 3)
             \<or> (t @ '' '' @ b = join_sp (split_sp p) \<and> b \<noteq> [])"
    by blast
  from c show ?thesis
  proof
    assume "t = join_sp (split_sp p) \<and> b = [] \<and> length (split_sp p) < 3"
    with eq tb t False show ?thesis by (simp add: join_split)
  next
    assume "t @ '' '' @ b = join_sp (split_sp p) \<and> b \<noteq> []"
    with eq tb t show ?thesis by (simp add: join_split)
  qed
qed

text \<open>
  Claim C5, as amended. Let the words of the string, as cut at single spaces, be
  non-empty and free of whitespace characters. Then the non-empty returned lines,
  joined with single spaces, give back the string. All the returned lines do so when
  the string is shorter than 24 characters; when it has 24 to 48 characters and at
  least three words; and when it is longer than 48 characters, the first \<open>k\<close> words
  joined stay under 48 characters and the first \<open>k + 1\<close> reach 48, for a \<open>k\<close> that is
  not zero, and these \<open>k\<close> words make fewer than 24 characters or are at least three.
\<close>

theorem fitted_lines_rejoin:
  assumes ok: "\<forall>w\<in>set (split_sp s). w \<noteq> [] \<and> (\<forall>c\<in>set w. \<not> isspace c)"
  shows "join_sp (filter (\<lambda>line. line \<noteq> []) (line_break_text s)) = s
       \<and> (length s < 24 \<longrightarrow> join_sp (line_break_text s) = s)
       \<and> (24 \<le> length s \<and> length s \<le> 48 \<and> 3 \<le> length (split_sp s) \<longrightarrow>
            join_sp (line_break_text s) = s)
       \<and> (48 < length s \<and> 0 < k \<and> k < length (split_sp s)
            \<and> length (join_sp (take k (split_sp s))) < 48
            \<and> 48 \<le> length (join_sp (take (Suc k) (split_sp s)))
            \<and> (length (join_sp (take k (split_sp s))) < 24 \<or> 3 \<le> k) \<longrightarrow>
            join_sp (line_break_text s) = s)"
proof (cases "48 < length s")
  case False
  then have le: "length s \<le> 48" by simp
  from ok have "\<forall>w\<in>set (split_sp s). w \<noteq> []" by blast
  from fitted_short_lines [OF le this] False show ?thesis by blast
next
  case True
  let ?ws = "split_sp s"
  from index_found [OF True] obtain k0 where k0: "k0 < length ?ws"
    and loop: "third_line_loop ?ws [] 0 = (spaced (take k0 ?ws), Some k0)"
    and reach: "48 \<le> length (join_sp (take (Suc k0) ?ws))"
    and under: "\<forall>j<k0. length (join_sp (take (Suc j) ?ws)) < 48"
    by blast
  let ?p = "strip (join_sp (take k0 ?ws))"
  let ?rest = "join_sp (drop k0 ?ws)"
  have res: "line_break_text s = line_break_text ?p @ [?rest]"
    using line_break_text_long [OF True] loop by (simp add: slice_from_def strip_spaced)
  have dne: "drop k0 ?ws \<noteq> []" using k0 by simp
  have "\<forall>w\<in>set (drop k0 ?ws). w \<noteq> []" using ok by (meson in_set_dropD)
  with dne have "2 * length (drop k0 ?ws) \<le> length ?rest + 1" by (rule length_join_ge)
  then have rest: "?rest \<noteq> []" using k0 by auto
  show ?thesis
  proof (cases "k0 = 0")
    case True
    then have "?p = []" by (simp add: strip_def)
    then have "line_break_text ?p = [[]]" by (simp add: line_break_text_short)
    with res rest True have "join_sp (filter (\<lambda>line. line \<noteq> []) (line_break_text s)) = join_sp ?ws"
      by simp
    then have a: "join_sp (filter (\<lambda>line. line \<noteq> []) (line_break_text s)) = s"
      by (simp add: join_split)
    have "\<not> (0 < k \<and> length (join_sp (take k ?ws)) < 48)"
    proof
      assume h: "0 < k \<and> length (join_sp (take k ?ws)) < 48"
      then have "Suc k0 \<le> k" using True by simp
      then have "length (join_sp (take (Suc k0) ?ws)) \<le> length (join_sp (take k ?ws))"
        by (rule length_join_take_mono)
      with reach h show False by simp
    qed
    with a \<open>48 < length s\<close> show ?thesis by force
  next
    case False
    then have kpos: "0 < k0" by simp
    have tk: "take k0 ?ws \<noteq> []" using kpos k0 by auto
    have okp: "\<forall>w\<in>set (take k0 ?ws). w \<noteq> [] \<and> (\<forall>c\<in>set w. \<not> isspace c)"
      using ok by (meson in_set_takeD)
    then have p: "?p = join_sp (take k0 ?ws)" using tk by (rule strip_join_words)
    have "\<forall>w\<in>set (take k0 ?ws). CHR '' '' \<notin> set w" using okp isspace_space by blast
    with tk have "split_sp (join_sp (take k0 ?ws)) = take k0 ?ws" by (rule split_join)
    with p have sp: "split_sp ?p = take k0 ?ws" by simp
    have nep: "\<forall>w\<in>set (split_sp ?p). w \<noteq> []" using okp sp by simp
    have "length ?p < 48" using under by (rule prefix_short)
    then have lep: "length ?p \<le> 48" by simp
    from fitted_short_lines [OF lep nep]
    have f: "join_sp (filter (\<lambda>line. line \<noteq> []) (line_break_text ?p)) = ?p"
      and e: "length ?p < 24 \<or> 3 \<le> length (split_sp ?p) \<Longrightarrow> join_sp (line_break_text ?p) = ?p"
      by blast+
    have whole: "join_sp (take k0 ?ws) @ '' '' @ ?rest = s"
      using join_take_drop [OF kpos k0] by (simp add: join_split)
    have "2 * length (take k0 ?ws) \<le> length (join_sp (take k0 ?ws)) + 1"
      using tk okp by (intro length_join_ge) auto
    then have pne: "?p \<noteq> []" using p kpos k0 by auto
    with f have fne: "filter (\<lambda>line. line \<noteq> []) (line_break_text ?p) \<noteq> []" by auto
    have "join_sp (filter (\<lambda>line. line \<noteq> []) (line_break_text s))
        = join_sp (filter (\<lambda>line. line \<noteq> []) (line_break_text ?p) @ [?rest])"
      using res rest by simp
    also have "\<dots> = join_sp (filter (\<lambda>line. line \<noteq> []) (line_break_text ?p)) @ '' '' @ ?rest"
      using fne by (rule join_sp_snoc)
    finally have a: "join_sp (filter (\<lambda>line. line \<noteq> []) (line_break_text s)) = s"
      using f p whole by simp
    have b: "join_sp (line_break_text s) = s"
      if h: "length (join_sp (take k ?ws)) < 48" "48 \<le> length (join_sp (take (Suc k) ?ws))"
        "length (join_sp (take k ?ws)) < 24 \<or> 3 \<le> k"
    proof -
      have "k = k0"
      proof (rule ccontr)
        assume "k \<noteq> k0"
        then consider "k < k0" | "Suc k0 \<le> k" by linarith
        then show False
        proof cases
          case 1
          with under h(2) show False by auto
        next
          case 2
          then have "length (join_sp (take (Suc k0) ?ws)) \<le> length (join_sp (take k ?ws))"
            by (rule length_join_take_mono)
          with reach h(1) show False by simp
        qed
      qed
      with h(3) p sp k0 have "length ?p < 24 \<or> 3 \<le> length (split_sp ?p)" by simp
      then have j: "join_sp (line_break_text ?p) = ?p" by (rule e)
      have "join_sp (line_break_text ?p @ [?rest]) = join_sp (line_break_text ?p) @ '' '' @ ?rest"
        using fitter_nonempty by (rule join_sp_snoc)
      with res j p whole show ?thesis by simp
    qed
    from a b \<open>48 < length s\<close> show ?thesis by auto
  qed
qed

theorem fitted_lines_rejoin_witness:
  "line_break_text ''The quick brown fox jumps over the lazy dog and keeps running far away'' =
       [''The quick brown fox jumps'', ''over the lazy dog and'', ''keeps running far away'']
   \<and> join_sp (line_break_text ''The quick brown fox jumps over the lazy dog and keeps running far away'') =
       ''The quick brown fox jumps over the lazy dog and keeps running far away''"
proof -
  let ?s = "''The quick brown fox jumps over the lazy dog and keeps running far away''"
  have a: "\<forall>w\<in>set (split_sp ?s). w \<noteq> [] \<and> (\<forall>c\<in>set w. \<not> isspace c)"
    by code_simp
  have b: "48 < length ?s \<and> 0 < (10::nat) \<and> 10 < length (split_sp ?s)
            \<and> length (join_sp (take 10 (split_sp ?s))) < 48
            \<and> 48 \<le> length (join_sp (take (Suc 10) (split_sp ?s)))
            \<and> (length (join_sp (take 10 (split_sp ?s))) < 24 \<or> 3 \<le> (10::nat))"
    by code_simp
  have c: "join_sp (line_break_text ?s) = ?s"
    using fitted_lines_rejoin [OF a, of 10] b by blast
  have d: "line_break_text ?s =
       [''The quick brown fox jumps'', ''over the lazy dog and'', ''keeps running far away'']"
    by code_simp
  show ?thesis by (rule conjI [OF d c])
qed

text \<open>
  The claim as stated fails for a string of two words whose first word has 48
  characters or more (the first line is empty and the whole string is the second
  line), and for a string with a doubled space at the break (the space is dropped).
  It also fails where the balancing loop is handed two words, which it never
  separates: the second line is empty.
\<close>

theorem fitted_lines_rejoin_counterexample:
  "length (split_sp ''xxxxxxxxxxxxxxxxxxxxxxxxxxxxxxxxxxxxxxxxxxxxxxxx y'') = 2
   \<and> line_break_text ''xxxxxxxxxxxxxxxxxxxxxxxxxxxxxxxxxxxxxxxxxxxxxxxx y'' =
       [[], ''xxxxxxxxxxxxxxxxxxxxxxxxxxxxxxxxxxxxxxxxxxxxxxxx y'']
   \<and> join_sp (line_break_text ''xxxxxxxxxxxxxxxxxxxxxxxxxxxxxxxxxxxxxxxxxxxxxxxx y'') \<noteq>
       ''xxxxxxxxxxxxxxxxxxxxxxxxxxxxxxxxxxxxxxxxxxxxxxxx y''
   \<and> join_sp (line_break_text ''aaa  xxxxxxxxxxxxxxxxxxxxxxxxxxxxxxxxxxxxxxxxxxxxxxxx'') \<noteq>
       ''aaa  xxxxxxxxxxxxxxxxxxxxxxxxxxxxxxxxxxxxxxxxxxxxxxxx''
   \<and> line_break_text ''aaaaaaaaaaaa bbbbbbbbbbbb'' = [''aaaaaaaaaaaa bbbbbbbbbbbb'', []]
   \<and> join_sp (line_break_text ''aaaaaaaaaaaa bbbbbbbbbbbb'') \<noteq> ''aaaaaaaaaaaa bbbbbbbbbbbb''"
  by code_simp

section \<open>Title and album normalizer\<close>

declare replace.simps [simp del]

lemma replace_absent: "\<not> contains pat s \<Longrightarrow> replace pat s = s"
proof (induction s)
  case Nil
  show ?case by (simp add: replace.simps)
next
  case (Cons c cs)
  then show ?case by (subst replace.simps) auto
qed

lemma replace_empty: "replace [] s = s"
  by (induction s) (simp_all add: replace.simps)

lemma clean_string_fixed:
  assumes "strip r = r" and "\<forall>p\<in>set P. \<not> matches p r"
  shows "clean_string r P = r"
  using assms
proof (induction P)
  case Nil
  show ?case by simp
next
  case (Cons p ps)
  show ?case
  proof (cases p)
    case (Literal pat)
    with Cons.prems have "pat = [] \<or> \<not> contains pat r" by auto
    then have "replace pat r = r" using replace_empty replace_absent by blast
    with Cons Literal show ?thesis by simp
  next
    case (Regex sub)
    with Cons.prems have "sub r = r" by auto
    with Cons Regex show ?thesis by simp
  qed
qed

lemma length_replace_le: "length (replace pat s) \<le> length s"
proof (induction pat s rule: replace.induct)
  case (1 pat s)
  show ?case
  proof (cases "s = []")
    case True
    then show ?thesis by (simp add: replace.simps)
  next
    case False
    show ?thesis
    proof (cases "pat \<noteq> [] \<and> take (length pat) s = pat")
      case True
      with False 1(1) have "length (replace pat (drop (length pat) s)) \<le> length (drop (length pat) s)"
        by blast
      moreover from False True have "replace pat s = replace pat (drop (length pat) s)"
        by (subst replace.simps) simp
      ultimately show ?thesis by simp
    next
      case nomatch: False
      with False 1(2) have "length (replace pat (tl s)) \<le> length (tl s)" by blast
      moreover from False nomatch have "replace pat s = hd s # replace pat (tl s)"
        by (subst replace.simps) auto
      ultimately show ?thesis using False by (cases s) simp_all
    qed
  qed
qed

lemma replace_present: "pat \<noteq> [] \<Longrightarrow> contains pat s \<Longrightarrow> length (replace pat s) < length s"
proof (induction s)
  case Nil
  then show ?case by simp
next
  case (Cons c cs)
  show ?case
  proof (cases "take (length pat) (c # cs) = pat")
    case True
    with Cons.prems have "replace pat (c # cs) = replace pat (drop (length pat) (c # cs))"
      by (subst replace.simps) simp
    moreover have "length (replace pat (drop (length pat) (c # cs))) \<le> length (drop (length pat) (c # cs))"
      by (rule length_replace_le)
    moreover have "length (drop (length pat) (c # cs)) < length (c # cs)"
      using Cons.prems(1) by (cases pat) simp_all
    ultimately show ?thesis by simp
  next
    case False
    with Cons.prems have "contains pat cs" by simp
    with Cons have "length (replace pat cs) < length cs" by simp
    moreover from False have "replace pat (c # cs) = c # replace pat cs"
      by (subst replace.simps) simp
    ultimately show ?thesis by simp
  qed
qed

lemma replace_same_iff: "(replace pat s = s) = (\<not> matches (Literal pat) s)"
proof (cases "pat \<noteq> [] \<and> contains pat s")
  case True
  then have "length (replace pat s) < length s" by (simp add: replace_present)
  then have "replace pat s \<noteq> s" by auto
  with True show ?thesis by simp
next
  case False
  then have "replace pat s = s" using replace_empty replace_absent by blast
  with False show ?thesis by simp
qed

lemma dropWhile_same_length: "length (dropWhile Q x) = length x \<Longrightarrow> dropWhile Q x = x"
proof -
  assume a: "length (dropWhile Q x) = length x"
  have "length (takeWhile Q x) + length (dropWhile Q x) = length x"
    by (metis length_append takeWhile_dropWhile_id)
  with a have "takeWhile Q x = []" by simp
  then show ?thesis by (metis append_Nil takeWhile_dropWhile_id)
qed

lemma strip_same_length: "length (strip x) = length x \<Longrightarrow> strip x = x"
proof -
  assume a: "length (strip x) = length x"
  have l1: "length (dropWhile isspace (rev (dropWhile isspace x))) \<le> length (dropWhile isspace x)"
    by (metis length_dropWhile_le length_rev)
  have l2: "length (dropWhile isspace x) \<le> length x" by (rule length_dropWhile_le)
  from a have "length (dropWhile isspace (rev (dropWhile isspace x))) = length x"
    by (simp add: strip_def)
  with l1 l2 have e: "length (dropWhile isspace x) = length x"
    and f: "length (dropWhile isspace (rev (dropWhile isspace x))) = length (rev (dropWhile isspace x))"
    by simp_all
  from e have d1: "dropWhile isspace x = x" by (rule dropWhile_same_length)
  from f have "dropWhile isspace (rev (dropWhile isspace x)) = rev (dropWhile isspace x)"
    by (rule dropWhile_same_length)
  with d1 show ?thesis by (simp add: strip_def)
qed

lemma clean_string_Cons: "clean_string s (p # ps) = clean_string (clean_string s [p]) ps"
  by (cases p) simp_all

lemma step_length_le:
  assumes "\<And>sub. p = Regex sub \<Longrightarrow> sub s = s \<or> length (sub s) < length s"
  shows "length (clean_string s [p]) \<le> length s"
proof (cases p)
  case (Literal pat)
  have "length (strip (replace pat s)) \<le> length (replace pat s)" by (rule length_strip_le)
  also have "\<dots> \<le> length s" by (rule length_replace_le)
  finally show ?thesis using Literal by simp
next
  case (Regex sub)
  have "length (strip (sub s)) \<le> length (sub s)" by (rule length_strip_le)
  also have "\<dots> \<le> length s" using assms [OF Regex] by auto
  finally show ?thesis using Regex by simp
qed

lemma step_same_length:
  assumes "\<And>sub. p = Regex sub \<Longrightarrow> sub s = s \<or> length (sub s) < length s"
    and same: "length (clean_string s [p]) = length s"
  shows "clean_string s [p] = s \<and> strip s = s \<and> \<not> matches p s"
proof (cases p)
  case (Literal pat)
  have a: "length (strip (replace pat s)) \<le> length (replace pat s)" by (rule length_strip_le)
  have b: "length (replace pat s) \<le> length s" by (rule length_replace_le)
  from same Literal have c: "length (strip (replace pat s)) = length s" by simp
  from a b c have "length (replace pat s) = length s" by simp
  then have "\<not> (pat \<noteq> [] \<and> contains pat s)" using replace_present [of pat s] by auto
  then have nm: "\<not> matches (Literal pat) s" by simp
  then have r: "replace pat s = s" by (simp add: replace_same_iff)
  with c have "strip s = s" by (simp add: strip_same_length)
  with r nm Literal show ?thesis by simp
next
  case (Regex sub)
  have a: "length (strip (sub s)) \<le> length (sub s)" by (rule length_strip_le)
  from same Regex have c: "length (strip (sub s)) = length s" by simp
  from assms(1) [OF Regex] a c have r: "sub s = s" by auto
  with c have "strip s = s" by (simp add: strip_same_length)
  with r Regex show ?thesis by simp
qed

lemma clean_string_length_le:
  assumes "\<And>sub x. Regex sub \<in> set P \<Longrightarrow> sub x = x \<or> length (sub x) < length x"
  shows "length (clean_string s P) \<le> length s"
  using assms
proof (induction P arbitrary: s)
  case Nil
  show ?case by simp
next
  case (Cons p ps)
  have "length (clean_string (clean_string s [p]) ps) \<le> length (clean_string s [p])"
    by (rule Cons.IH) (simp add: Cons.prems)
  also have "\<dots> \<le> length s" by (rule step_length_le) (simp add: Cons.prems)
  finally show ?case by (subst clean_string_Cons)
qed

lemma clean_string_same_length:
  assumes "\<And>sub x. Regex sub \<in> set P \<Longrightarrow> sub x = x \<or> length (sub x) < length x"
    and "length (clean_string s P) = length s"
  shows "clean_string s P = s \<and> (P = [] \<or> strip s = s) \<and> (\<forall>p\<in>set P. \<not> matches p s)"
  using assms
proof (induction P)
  case Nil
  show ?case by simp
next
  case (Cons p ps)
  have sh: "\<And>sub x. Regex sub \<in> set ps \<Longrightarrow> sub x = x \<or> length (sub x) < length x"
    by (simp add: Cons.prems(1))
  have a: "length (clean_string (clean_string s [p]) ps) \<le> length (clean_string s [p])"
    by (rule clean_string_length_le) (rule sh)
  have b: "length (clean_string s [p]) \<le> length s"
    by (rule step_length_le) (simp add: Cons.prems(1))
  from Cons.prems(2) have c: "length (clean_string (clean_string s [p]) ps) = length s"
    by (subst (asm) clean_string_Cons)
  from a b c have "length (clean_string s [p]) = length s" by simp
  with Cons.prems(1) have st: "clean_string s [p] = s \<and> strip s = s \<and> \<not> matches p s"
    by (intro step_same_length) simp_all
  with c have "length (clean_string s ps) = length s" by simp
  with sh have "clean_string s ps = s \<and> (ps = [] \<or> strip s = s) \<and> (\<forall>p\<in>set ps. \<not> matches p s)"
    by (rule Cons.IH)
  with st show ?case by (subst clean_string_Cons) simp
qed

lemma shrinking_reaches_fixed_point:
  fixes f :: "string \<Rightarrow> string"
  assumes "\<And>x. f x = x \<or> length (f x) < length x"
  shows "\<exists>n\<le>length s. f ((f ^^ n) s) = (f ^^ n) s"
proof (induction "length s" arbitrary: s rule: less_induct)
  case less
  show ?case
  proof (cases "f s = s")
    case True
    then have "f ((f ^^ 0) s) = (f ^^ 0) s" by simp
    then show ?thesis by blast
  next
    case False
    with assms [of s] have lt: "length (f s) < length s" by simp
    from less [OF lt] obtain n where n: "n \<le> length (f s)" and fp: "f ((f ^^ n) (f s)) = (f ^^ n) (f s)"
      by blast
    have "(f ^^ Suc n) s = (f ^^ n) (f s)" by (simp add: funpow_swap1)
    with fp have "f ((f ^^ Suc n) s) = (f ^^ Suc n) s" by simp
    moreover from n lt have "Suc n \<le> length s" by simp
    ultimately show ?thesis by blast
  qed
qed

text \<open>
  Claim C6, as amended. A regular expression is taken to leave a string unchanged or
  to shorten it, as a substitution by the empty string does. Then the normalizer
  never lengthens a string; it returns a string unchanged exactly when no pattern of
  the list matches it and, for a non-empty list, the string has no whitespace at
  either end; and repeating the normalizer with the same list reaches such a string
  after at most as many passes as the string has characters.
\<close>

theorem normalizer_reaches_fixed_point:
  assumes "\<forall>sub x. Regex sub \<in> set P \<longrightarrow> sub x = x \<or> length (sub x) < length x"
  shows "length (clean_string s P) \<le> length s
       \<and> ((clean_string s P = s) = ((P = [] \<or> strip s = s) \<and> (\<forall>p\<in>set P. \<not> matches p s)))
       \<and> (\<exists>n\<le>length s. clean_string (((\<lambda>x. clean_string x P) ^^ n) s) P
                             = ((\<lambda>x. clean_string x P) ^^ n) s)"
proof -
  have sh: "\<And>sub x. Regex sub \<in> set P \<Longrightarrow> sub x = x \<or> length (sub x) < length x"
    using assms by blast
  have le: "length (clean_string x P) \<le> length x" for x
    by (rule clean_string_length_le) (rule sh)
  have same: "clean_string x P = x \<and> (P = [] \<or> strip x = x) \<and> (\<forall>p\<in>set P. \<not> matches p x)"
    if "length (clean_string x P) = length x" for x
    using sh that by (rule clean_string_same_length)
  have fixed: "(clean_string s P = s) = ((P = [] \<or> strip s = s) \<and> (\<forall>p\<in>set P. \<not> matches p s))"
  proof
    assume "clean_string s P = s"
    then have "length (clean_string s P) = length s" by simp
    from same [OF this] show "(P = [] \<or> strip s = s) \<and> (\<forall>p\<in>set P. \<not> matches p s)" by blast
  next
    assume a: "(P = [] \<or> strip s = s) \<and> (\<forall>p\<in>set P. \<not> matches p s)"
    show "clean_string s P = s"
    proof (cases "P = []")
      case True
      then show ?thesis by simp
    next
      case False
      with a have "strip s = s" and "\<forall>p\<in>set P. \<not> matches p s" by blast+
      then show ?thesis by (rule clean_string_fixed)
    qed
  qed
  have "clean_string x P = x \<or> length (clean_string x P) < length x" for x
    using le [of x] same [of x] by (cases "length (clean_string x P) = length x") auto
  then have "\<exists>n\<le>length s. (\<lambda>x. clean_string x P) (((\<lambda>x. clean_string x P) ^^ n) s)
      = ((\<lambda>x. clean_string x P) ^^ n) s"
    by (rule shrinking_reaches_fixed_point)
  with le [of s] fixed show ?thesis by simp
qed

lemma takeWhile_shrinks: "takeWhile Q x = x \<or> length (takeWhile Q x) < length x"
proof (cases "length (takeWhile Q x) = length x")
  case True
  have "length (takeWhile Q x) + length (dropWhile Q x) = length x"
    by (metis length_append takeWhile_dropWhile_id)
  with True have "dropWhile Q x = []" by simp
  then have "takeWhile Q x = x" by (metis append_Nil2 takeWhile_dropWhile_id)
  then show ?thesis by simp
next
  case False
  moreover have "length (takeWhile Q x) \<le> length x" by (rule length_takeWhile_le)
  ultimately show ?thesis by simp
qed

theorem normalizer_reaches_fixed_point_witness:
  "length (clean_string ''aabb [live]'' [Literal ''ab'', Regex (takeWhile (\<lambda>c. c \<noteq> CHR ''['')), Literal ''(Mono)''])
     \<le> length ''aabb [live]''
   \<and> (\<exists>n\<le>length ''aabb [live]''.
        clean_string
          (((\<lambda>x. clean_string x [Literal ''ab'', Regex (takeWhile (\<lambda>c. c \<noteq> CHR ''['')), Literal ''(Mono)'']) ^^ n)
             ''aabb [live]'')
          [Literal ''ab'', Regex (takeWhile (\<lambda>c. c \<noteq> CHR ''['')), Literal ''(Mono)'']
        = ((\<lambda>x. clean_string x [Literal ''ab'', Regex (takeWhile (\<lambda>c. c \<noteq> CHR ''['')), Literal ''(Mono)'']) ^^ n)
             ''aabb [live]'')"
proof -
  let ?P = "[Literal ''ab'', Regex (takeWhile (\<lambda>c. c \<noteq> CHR ''['')), Literal ''(Mono)'']"
  have h: "\<forall>sub x. Regex sub \<in> set ?P \<longrightarrow> sub x = x \<or> length (sub x) < length x"
  proof (intro allI impI)
    fix sub x
    assume "Regex sub \<in> set ?P"
    then have e: "sub = takeWhile (\<lambda>c. c \<noteq> CHR ''['')" by simp
    show "sub x = x \<or> length (sub x) < length x" unfolding e by (rule takeWhile_shrinks)
  qed
  from normalizer_reaches_fixed_point [OF h, of "''aabb [live]''"] show ?thesis by blast
qed

text \<open>
  The claim as stated fails: removing a pattern can join the text around it into a
  new occurrence of the same or of an earlier pattern, which only a second pass
  removes.
\<close>

theorem normalizer_not_idempotent_counterexample:
  "clean_string ''aabb'' [Literal ''ab''] = ''ab''
   \<and> clean_string (clean_string ''aabb'' [Literal ''ab'']) [Literal ''ab''] = []
   \<and> clean_string ''Song (Mo(Remastered)no)'' [Literal ''(Mono)'', Literal ''(Remastered)''] =
       ''Song (Mono)''
   \<and> clean_string
       (clean_string ''Song (Mo(Remastered)no)'' [Literal ''(Mono)'', Literal ''(Remastered)''])
       [Literal ''(Mono)'', Literal ''(Remastered)''] = ''Song''"
  by code_simp

section \<open>Properties of the fuzzy index and of the card selection\<close>

lemma index_loop_KeyError:
  "\<exists>track\<in>set tracks. db_set track = None \<Longrightarrow> index_loop skip tracks idx = Inl (KeyError ''set'')"
proof (induction tracks arbitrary: idx)
  case Nil
  then show ?case by simp
next
  case (Cons track rest)
  show ?case
  proof (cases "db_set track")
    case None
    then show ?thesis by simp
  next
    case (Some s)
    with Cons.prems have "\<exists>track\<in>set rest. db_set track = None" by auto
    with Cons.IH Some show ?thesis by simp
  qed
qed

text \<open>
  Claim C7 does not hold of the code. The loop that prepares the index selects the
  records by their key \<open>set\<close>, not by their \<open>sets\<close>: with fuzzy matching and a set to
  exclude, it raises \<open>KeyError\<close> as soon as the database holds a record without the key
  \<open>set\<close>, and it leaves out a record whose \<open>sets\<close> contain the excluded set when its key
  \<open>set\<close> names another set. Only a record whose key \<open>set\<close> is excluded is indexed.
\<close>

theorem index_selects_by_set_key:
  "(fuzzy_track_dupes args \<and> skip_sets args \<noteq> {}
      \<and> (\<exists>track\<in>set (map snd track_metadata). db_set track = None)
      \<longrightarrow> build_index args track_metadata = Inl (KeyError ''set''))
   \<and> build_index (skip_setA True) [(''id1'', sample_record None [(''setA'', 1)])]
       = Inl (KeyError ''set'')
   \<and> build_index (skip_setA True)
        [(''id1'', sample_record (Some ''setB'') [(''setB'', 1), (''setA'', 2)])] = Inr []
   \<and> build_index (skip_setA True) [(''id1'', sample_record (Some ''setA'') [(''setA'', 1)])]
       = Inr [((''Title X'', ''Artist Y''), {''setA''})]"
proof (intro conjI impI)
  assume "fuzzy_track_dupes args \<and> skip_sets args \<noteq> {}
      \<and> (\<exists>track\<in>set (map snd track_metadata). db_set track = None)"
  then show "build_index args track_metadata = Inl (KeyError ''set'')"
    by (simp add: build_index_def index_loop_KeyError)
next
  show "build_index (skip_setA True) [(''id1'', sample_record None [(''setA'', 1)])]
       = Inl (KeyError ''set'')"
    by (simp add: build_index_def skip_setA_def skip_sets_def sample_record_def)
next
  show "build_index (skip_setA True)
        [(''id1'', sample_record (Some ''setB'') [(''setB'', 1), (''setA'', 2)])] = Inr []"
    by (simp add: build_index_def skip_setA_def skip_sets_def sample_record_def)
next
  show "build_index (skip_setA True) [(''id1'', sample_record (Some ''setA'') [(''setA'', 1)])]
       = Inr [((''Title X'', ''Artist Y''), {''setA''})]"
    by (simp add: build_index_def skip_setA_def skip_sets_def sample_record_def
        display_title_def display_artist_def)
qed

theorem index_selects_by_set_key_witness:
  "build_index (skip_setA True)
     [(''id1'', sample_record (Some ''setA'') [(''setA'', 1)]),
      (''id2'', sample_record None [(''setA'', 1)])] = Inl (KeyError ''set'')"
proof -
  have "fuzzy_track_dupes (skip_setA True) \<and> skip_sets (skip_setA True) \<noteq> {}
      \<and> (\<exists>track\<in>set (map snd [(''id1'', sample_record (Some ''setA'') [(''setA'', 1)]),
                                  (''id2'', sample_record None [(''setA'', 1)])]). db_set track = None)"
    by (simp add: skip_setA_def skip_sets_def sample_record_def)
  with index_selects_by_set_key show ?thesis by blast
qed

text \<open>
  Claim C8 does not hold of the code, through the same selection by the key \<open>set\<close>.
  Two track ids share the title and the artist; the first is in the excluded set
  \<open>setA\<close>, the second, the candidate, is not. With fuzzy matching the run ends with
  \<open>KeyError\<close> when the records are as the fetcher writes them, and the candidate is
  selected, not skipped, when the key \<open>set\<close> of the first record names another of its
  sets. The candidate is skipped, with the set \<open>setA\<close> reported, only when the key
  \<open>set\<close> of the first record is \<open>setA\<close>. Without fuzzy matching the candidate is
  selected, as the claim says.
\<close>

theorem fuzzy_dedup_needs_set_key:
  "select_tracks (skip_setA True)
     [(''id1'', sample_record None [(''setA'', 1)]), (''id2'', sample_record None [(''setB'', 1)])]
     [''id2;setB''] = ([], Inl (KeyError ''set''))
   \<and> select_tracks (skip_setA True)
       [(''id1'', sample_record (Some ''setC'') [(''setC'', 1), (''setA'', 2)]),
        (''id2'', sample_record (Some ''setB'') [(''setB'', 1)])]
       [''id2;setB''] = ([], Inr [sample_card ''setB'' 0])
   \<and> select_tracks (skip_setA True)
       [(''id1'', sample_record (Some ''setA'') [(''setA'', 1)]),
        (''id2'', sample_record (Some ''setB'') [(''setB'', 1)])]
       [''id2;setB''] = ([PresentInSets ''id2'' {''setA''}], Inr [])
   \<and> select_tracks (skip_setA False)
       [(''id1'', sample_record None [(''setA'', 1)]), (''id2'', sample_record None [(''setB'', 1)])]
       [''id2;setB''] = ([], Inr [sample_card ''setB'' 0])
   \<and> select_tracks (skip_setA False)
       [(''id1'', sample_record None [(''setA'', 1)]), (''id2'', sample_record None [(''setB'', 1)])]
       [''id1;setA''] = ([PresentInSet ''id1'' [''setA'']], Inr [])"
  by (simp add: select_tracks_def build_index_def skip_setA_def skip_sets_def sample_record_def
      sample_card_def display_title_def display_artist_def display_album_def make_track_def
      card_set_def strip_def isspace_def whitespace_def startswith_def enumerate_eq_zip Let_def)

section \<open>Properties of the set id of a line\<close>










end
